theory Spec2Isabelle
  imports Main
begin

section \<open>The puzzle engine of NeonSudoku\<close>

text \<open>
  The engine (\<^verbatim>\<open>utils/sudokuLogic.ts\<close>) consists of the constraint checker \<^verbatim>\<open>isValid\<close>,
  the backtracking solver \<^verbatim>\<open>solveSudoku\<close>, the solution counter \<^verbatim>\<open>countSolutions\<close> and
  the generator \<^verbatim>\<open>generateSudoku\<close>.  A board is an array of rows; a cell is
  \<^verbatim>\<open>number | null\<close>.  The functions mutate the board in place, so the model passes the board
  through every call and returns it.
\<close>

subsection \<open>Data\<close>

datatype Difficulty = EASY | MEDIUM | HARD | EXPERT

type_synonym cell = "nat option"
type_synonym grid = "cell list list"

text \<open>
  Reading \<^verbatim>\<open>board[row][col]\<close>: when \<^verbatim>\<open>board[row]\<close> does not exist the access throws a
  \<^verbatim>\<open>TypeError\<close>; when the row exists but is too short the result is \<^verbatim>\<open>undefined\<close>, which is
  neither \<^verbatim>\<open>null\<close> nor a number.
\<close>

datatype error = TypeError

datatype jsval = Undefined | Cell cell

definition cellAt :: "grid \<Rightarrow> nat \<Rightarrow> nat \<Rightarrow> error + jsval" where
  "cellAt board row col =
     (if row < length board
      then Inr (if col < length (board ! row) then Cell (board ! row ! col) else Undefined)
      else Inl TypeError)"

text \<open>
  The assignment \<^verbatim>\<open>board[row][col] = v\<close>.  Every assignment of the engine is to a cell that
  was read just before (solver, counter) or to a cell of the 9x9 board that the generator
  itself created, with indices below 9; it is therefore an update inside the array.
\<close>

definition setCell :: "grid \<Rightarrow> nat \<Rightarrow> nat \<Rightarrow> cell \<Rightarrow> grid" where
  "setCell board row col v = board[row := (board ! row)[col := v]]"

subsection \<open>Constraint checker\<close>

text \<open>
  Each of the three loops of \<^verbatim>\<open>isValid\<close> visits a fixed sequence of cells and returns
  \<^verbatim>\<open>false\<close> at the first one that holds \<^verbatim>\<open>num\<close>.  \<open>hasNum\<close> is one such loop over the
  cells it is given, in order.
\<close>

fun hasNum :: "grid \<Rightarrow> nat \<Rightarrow> (nat \<times> nat) list \<Rightarrow> error + bool" where
  "hasNum board num [] = Inr False"
| "hasNum board num ((r, c) # ps) =
     (case cellAt board r c of
        Inl e \<Rightarrow> Inl e
      | Inr v \<Rightarrow> if v = Cell (Some num) then Inr True else hasNum board num ps)"

definition isValid :: "grid \<Rightarrow> nat \<Rightarrow> nat \<Rightarrow> nat \<Rightarrow> error + bool" where
  "isValid board row col num =
     (case hasNum board num (map (\<lambda>x. (row, x)) [0..<9]) of
        Inl e \<Rightarrow> Inl e
      | Inr True \<Rightarrow> Inr False
      | Inr False \<Rightarrow>
         (case hasNum board num (map (\<lambda>x. (x, col)) [0..<9]) of
            Inl e \<Rightarrow> Inl e
          | Inr True \<Rightarrow> Inr False
          | Inr False \<Rightarrow>
             (let startRow = row - row mod 3; startCol = col - col mod 3 in
              case hasNum board num
                     (concat (map (\<lambda>i. map (\<lambda>j. (i + startRow, j + startCol)) [0..<3]) [0..<3])) of
                Inl e \<Rightarrow> Inl e
              | Inr True \<Rightarrow> Inr False
              | Inr False \<Rightarrow> Inr True)))"

subsection \<open>Solver\<close>

text \<open>The cells in the order of the two nested loops \<^verbatim>\<open>for row\<close>, \<^verbatim>\<open>for col\<close>.\<close>

definition cells :: "(nat \<times> nat) list" where
  "cells = concat (map (\<lambda>row. map (\<lambda>col. (row, col)) [0..<9]) [0..<9])"

text \<open>The scan for the first cell that is \<^verbatim>\<open>null\<close>.\<close>

fun findEmpty :: "grid \<Rightarrow> (nat \<times> nat) list \<Rightarrow> error + (nat \<times> nat) option" where
  "findEmpty board [] = Inr None"
| "findEmpty board ((row, col) # ps) =
     (case cellAt board row col of
        Inl e \<Rightarrow> Inl e
      | Inr v \<Rightarrow> if v = Cell None then Inr (Some (row, col)) else findEmpty board ps)"

text \<open>
  \<open>solveSudoku\<close> returns the result of the source function together with the board as the
  call leaves it.  \<open>tryNums board row col num\<close> is the loop \<^verbatim>\<open>for (num = 1; num <= 9; num++)\<close>
  at the empty cell, from candidate \<open>num\<close> on, followed by \<^verbatim>\<open>return false\<close>.
\<close>

function solveSudoku :: "grid \<Rightarrow> error + bool \<times> grid"
  and tryNums :: "grid \<Rightarrow> nat \<Rightarrow> nat \<Rightarrow> nat \<Rightarrow> error + bool \<times> grid"
where
  "solveSudoku board =
     (case findEmpty board cells of
        Inl e \<Rightarrow> Inl e
      | Inr None \<Rightarrow> Inr (True, board)
      | Inr (Some (row, col)) \<Rightarrow> tryNums board row col 1)"
| "tryNums board row col num =
     (if num \<le> 9 then
        (case isValid board row col num of
           Inl e \<Rightarrow> Inl e
         | Inr False \<Rightarrow> tryNums board row col (num + 1)
         | Inr True \<Rightarrow>
            (case solveSudoku (setCell board row col (Some num)) of
               Inl e \<Rightarrow> Inl e
             | Inr (True, board') \<Rightarrow> Inr (True, board')
             | Inr (False, board') \<Rightarrow> tryNums (setCell board' row col None) row col (num + 1)))
      else Inr (False, board))"
  by pat_completeness auto

subsection \<open>Solution counter\<close>

text \<open>
  \<open>solve count b\<close> is the inner closure \<^verbatim>\<open>solve\<close> of \<^verbatim>\<open>countSolutions\<close>; the captured
  variable \<^verbatim>\<open>count\<close> is passed in and returned.  \<open>solveNums\<close> is its candidate loop.
\<close>

function solve :: "nat \<Rightarrow> grid \<Rightarrow> error + nat \<times> grid"
  and solveNums :: "nat \<Rightarrow> grid \<Rightarrow> nat \<Rightarrow> nat \<Rightarrow> nat \<Rightarrow> error + nat \<times> grid"
where
  "solve count b =
     (case findEmpty b cells of
        Inl e \<Rightarrow> Inl e
      | Inr None \<Rightarrow> Inr (count + 1, b)
      | Inr (Some (row, col)) \<Rightarrow> solveNums count b row col 1)"
| "solveNums count b row col num =
     (if num \<le> 9 then
        (case isValid b row col num of
           Inl e \<Rightarrow> Inl e
         | Inr False \<Rightarrow> solveNums count b row col (num + 1)
         | Inr True \<Rightarrow>
            (case solve count (setCell b row col (Some num)) of
               Inl e \<Rightarrow> Inl e
             | Inr (count', b') \<Rightarrow>
                 if count' > 1 then Inr (count', setCell b' row col None)
                 else solveNums count' (setCell b' row col None) row col (num + 1)))
      else Inr (count, b))"
  by pat_completeness auto

definition countSolutions :: "grid \<Rightarrow> error + nat \<times> grid" where
  "countSolutions board = solve 0 board"

subsection \<open>Generator\<close>

text \<open>
  The random source is a list of natural numbers; \<^verbatim>\<open>Math.floor(Math.random() * 9)\<close> takes
  the next number modulo 9.  A loop that needs a number when the list is used up has not
  returned: the result is \<open>None\<close>.
\<close>

definition diagCells :: "(nat \<times> nat) list" where
  "diagCells =
     concat (map (\<lambda>i. concat (map (\<lambda>j. map (\<lambda>k. (i + j, i + k)) [0..<3]) [0..<3])) [0, 3, 6])"

text \<open>The \<^verbatim>\<open>do ... while (!isValid(board, i + j, i + k, num))\<close> loop.\<close>

fun pickNum :: "nat list \<Rightarrow> grid \<Rightarrow> nat \<Rightarrow> nat \<Rightarrow> (error + nat \<times> nat list) option" where
  "pickNum [] board row col = None"
| "pickNum (d # rnd) board row col =
     (let num = d mod 9 + 1 in
      case isValid board row col num of
        Inl e \<Rightarrow> Some (Inl e)
      | Inr True \<Rightarrow> Some (Inr (num, rnd))
      | Inr False \<Rightarrow> pickNum rnd board row col)"

fun fillDiagonal ::
  "nat list \<Rightarrow> grid \<Rightarrow> (nat \<times> nat) list \<Rightarrow> (error + grid \<times> nat list) option" where
  "fillDiagonal rnd board [] = Some (Inr (board, rnd))"
| "fillDiagonal rnd board ((row, col) # ps) =
     (case pickNum rnd board row col of
        None \<Rightarrow> None
      | Some (Inl e) \<Rightarrow> Some (Inl e)
      | Some (Inr (num, rnd')) \<Rightarrow> fillDiagonal rnd' (setCell board row col (Some num)) ps)"

fun cellsToRemove :: "Difficulty \<Rightarrow> nat" where
  "cellsToRemove EASY = 35"
| "cellsToRemove MEDIUM = 45"
| "cellsToRemove HARD = 55"
| "cellsToRemove EXPERT = 60"

text \<open>\<^verbatim>\<open>JSON.parse(JSON.stringify(puzzle))\<close> and \<^verbatim>\<open>board.map(row => [...row])\<close>: a fresh array
  with the same contents.\<close>

definition deepCopy :: "grid \<Rightarrow> grid" where
  "deepCopy board = map (\<lambda>row. map (\<lambda>v. v) row) board"

text \<open>
  The loop \<^verbatim>\<open>while (attempts < cellsToRemove)\<close>.  The counter runs on a copy, and the board
  it leaves behind is dropped.
\<close>

fun removeCells :: "nat list \<Rightarrow> grid \<Rightarrow> nat \<Rightarrow> nat \<Rightarrow> (error + grid) option" where
  "removeCells rnd puzzle attempts target =
     (if attempts < target then
        (case rnd of
           d1 # d2 # rnd' \<Rightarrow>
             (let r = d1 mod 9; c = d2 mod 9 in
              if puzzle ! r ! c \<noteq> None then
                (let temp = puzzle ! r ! c;
                     puzzle1 = setCell puzzle r c None in
                 case countSolutions (deepCopy puzzle1) of
                   Inl e \<Rightarrow> Some (Inl e)
                 | Inr (n, _) \<Rightarrow>
                     if n \<noteq> 1 then removeCells rnd' (setCell puzzle1 r c temp) attempts target
                     else removeCells rnd' puzzle1 (attempts + 1) target)
              else removeCells rnd' puzzle attempts target)
         | _ \<Rightarrow> None)
      else Some (Inr puzzle))"

text \<open>The result is the pair \<^verbatim>\<open>{ puzzle, solution }\<close>.\<close>

definition generateSudoku :: "nat list \<Rightarrow> Difficulty \<Rightarrow> (error + grid \<times> grid) option" where
  "generateSudoku rnd difficulty =
     (let board = replicate 9 (replicate 9 None) in
      case fillDiagonal rnd board diagCells of
        None \<Rightarrow> None
      | Some (Inl e) \<Rightarrow> Some (Inl e)
      | Some (Inr (board1, rnd1)) \<Rightarrow>
          (case solveSudoku board1 of
             Inl e \<Rightarrow> Some (Inl e)
           | Inr (_, board2) \<Rightarrow>
               (let solution = deepCopy board2;
                    puzzle = deepCopy board2 in
                case removeCells rnd1 puzzle 0 (cellsToRemove difficulty) of
                  None \<Rightarrow> None
                | Some (Inl e) \<Rightarrow> Some (Inl e)
                | Some (Inr puzzle') \<Rightarrow> Some (Inr (puzzle', solution)))))"

subsection \<open>Grids, units and completions\<close>

text \<open>A grid of the data model: nine rows of nine cells.\<close>

definition grid9 :: "grid \<Rightarrow> bool" where
  "grid9 board \<longleftrightarrow> length board = 9 \<and> (\<forall>row \<in> set board. length row = 9)"

text \<open>Every filled cell holds a digit from 1 to 9.\<close>

definition digits19 :: "grid \<Rightarrow> bool" where
  "digits19 board \<longleftrightarrow> (\<forall>row \<in> set board. \<forall>v \<in> set row. v = None \<or> v \<in> Some ` {1..9})"

definition noEmpty :: "grid \<Rightarrow> bool" where
  "noEmpty board \<longleftrightarrow> (\<forall>row \<in> set board. None \<notin> set row)"

definition filledCount :: "grid \<Rightarrow> nat" where
  "filledCount board = (\<Sum>row\<leftarrow>board. length (filter (\<lambda>v. v \<noteq> None) row))"

text \<open>The three conditions of the constraint checker, as the contract words them.\<close>

definition inRow :: "grid \<Rightarrow> nat \<Rightarrow> nat \<Rightarrow> bool" where
  "inRow board row v \<longleftrightarrow> (\<exists>x \<in> {0..<9}. board ! row ! x = Some v)"

definition inCol :: "grid \<Rightarrow> nat \<Rightarrow> nat \<Rightarrow> bool" where
  "inCol board col v \<longleftrightarrow> (\<exists>x \<in> {0..<9}. board ! x ! col = Some v)"

definition inBox :: "grid \<Rightarrow> nat \<Rightarrow> nat \<Rightarrow> nat \<Rightarrow> bool" where
  "inBox board row col v \<longleftrightarrow>
     (\<exists>i \<in> {0..<3}. \<exists>j \<in> {0..<3}.
        board ! (i + (row - row mod 3)) ! (j + (col - col mod 3)) = Some v)"

text \<open>The 27 units: rows, columns and 3x3 boxes, each as the list of its cells.\<close>

definition rowCells :: "nat \<Rightarrow> (nat \<times> nat) list" where
  "rowCells r = map (\<lambda>c. (r, c)) [0..<9]"

definition colCells :: "nat \<Rightarrow> (nat \<times> nat) list" where
  "colCells c = map (\<lambda>r. (r, c)) [0..<9]"

definition boxCells :: "nat \<Rightarrow> (nat \<times> nat) list" where
  "boxCells k =
     concat (map (\<lambda>i. map (\<lambda>j. (3 * (k div 3) + i, 3 * (k mod 3) + j)) [0..<3]) [0..<3])"

definition units :: "(nat \<times> nat) list list" where
  "units = map rowCells [0..<9] @ map colCells [0..<9] @ map boxCells [0..<9]"

definition valuesAt :: "grid \<Rightarrow> (nat \<times> nat) list \<Rightarrow> cell list" where
  "valuesAt board ps = map (\<lambda>(r, c). board ! r ! c) ps"

text \<open>The filled cells contain no duplicate in any row, column or box.\<close>

definition noDuplicates :: "grid \<Rightarrow> bool" where
  "noDuplicates board \<longleftrightarrow>
     (\<forall>u \<in> set units. distinct (filter (\<lambda>v. v \<noteq> None) (valuesAt board u)))"

text \<open>A solution grid: no empty cell, and every unit is a permutation of 1 to 9.\<close>

definition isPermutation19 :: "cell list \<Rightarrow> bool" where
  "isPermutation19 vs \<longleftrightarrow> distinct vs \<and> set vs = Some ` {1..9}"

definition validSolution :: "grid \<Rightarrow> bool" where
  "validSolution s \<longleftrightarrow> grid9 s \<and> (\<forall>u \<in> set units. isPermutation19 (valuesAt s u))"

text \<open>Every non-empty cell of \<open>p\<close> equals the corresponding cell of \<open>s\<close>.\<close>

definition agrees :: "grid \<Rightarrow> grid \<Rightarrow> bool" where
  "agrees p s \<longleftrightarrow> (\<forall>r \<in> {0..<9}. \<forall>c \<in> {0..<9}. p ! r ! c \<noteq> None \<longrightarrow> p ! r ! c = s ! r ! c)"

text \<open>A valid completion of a board: a solution grid that keeps the filled cells.\<close>

definition completion :: "grid \<Rightarrow> grid \<Rightarrow> bool" where
  "completion board s \<longleftrightarrow> validSolution s \<and> agrees board s"

subsection \<open>Auxiliary notions\<close>

text \<open>A cell that exists in the array, the number of empty cells, and the measure of the
  candidate loop.\<close>

definition inRange :: "grid \<Rightarrow> nat \<Rightarrow> nat \<Rightarrow> bool" where
  "inRange board row col \<longleftrightarrow> row < length board \<and> col < length (board ! row)"

definition empties :: "grid \<Rightarrow> nat" where
  "empties board = (\<Sum>row\<leftarrow>board. count_list row None)"

definition tryMeasure :: "grid \<Rightarrow> nat \<Rightarrow> nat \<Rightarrow> nat" where
  "tryMeasure board row col =
     (if inRange board row col then 2 * empties (setCell board row col None) + 1
      else 2 * empties board + 3)"

text \<open>Two cells that share a row, a column or a box; the board read at a position; the 81
  positions; a board on which no filled cell repeats in a peer.\<close>

definition peer :: "nat \<times> nat \<Rightarrow> nat \<times> nat \<Rightarrow> bool" where
  "peer p q \<longleftrightarrow>
     fst p = fst q \<or> snd p = snd q \<or> (fst p div 3 = fst q div 3 \<and> snd p div 3 = snd q div 3)"

definition cellOf :: "grid \<Rightarrow> nat \<times> nat \<Rightarrow> cell" where
  "cellOf board p = board ! fst p ! snd p"

definition positions :: "(nat \<times> nat) set" where
  "positions = {0..<9} \<times> {0..<9}"

definition consistent :: "grid \<Rightarrow> bool" where
  "consistent board \<longleftrightarrow>
     (\<forall>p \<in> positions. \<forall>q \<in> positions.
        p \<noteq> q \<longrightarrow> peer p q \<longrightarrow> cellOf board p \<noteq> None \<longrightarrow> cellOf board p \<noteq> cellOf board q)"

text \<open>
  \<open>s\<close> comes no later than \<open>t\<close> when the cells are read in the order of the scan (row by
  row, each row from left to right): the grids are equal, or at the first cell where they
  differ \<open>s\<close> holds the smaller digit.
\<close>

definition precedes :: "grid \<Rightarrow> grid \<Rightarrow> bool" where
  "precedes s t \<longleftrightarrow>
     s = t \<or>
     (\<exists>k<length cells.
        (\<forall>j<k. cellOf s (cells ! j) = cellOf t (cells ! j)) \<and>
        (\<exists>a b. cellOf s (cells ! k) = Some a \<and> cellOf t (cells ! k) = Some b \<and> a < b))"

text \<open>What the seeding loop maintains.\<close>

definition seedInv :: "grid \<Rightarrow> bool" where
  "seedInv board \<longleftrightarrow> grid9 board \<and> digits19 board \<and> consistent board"

subsection \<open>Example boards\<close>

text \<open>
  An example run for difficulty \<open>EASY\<close>: the draws that seed the three diagonal boxes, the
  draws of the removal loop (the second pick lands on a cell that is already empty), the
  seeded board, the solution and the puzzle.
\<close>

definition exSeedDraws :: "nat list" where
  "exSeedDraws =
     [5, 4, 7, 1, 6, 3, 0, 8, 2, 8, 3, 7, 6, 1, 5, 2, 0, 4, 8, 2, 7, 5, 3, 4,
      6, 0, 1]"

definition exPickDraws :: "nat list" where
  "exPickDraws =
     [0, 0, 0, 0, 0, 1, 0, 2, 0, 3, 0, 4, 0, 5, 0, 6, 0, 7, 0, 8, 1, 0, 1, 1,
      1, 2, 1, 3, 1, 4, 1, 8, 2, 0, 2, 1, 2, 2, 2, 5, 2, 6, 3, 0, 3, 1, 3, 3,
      3, 4, 3, 5, 3, 6, 3, 7, 3, 8, 4, 0, 4, 1, 4, 3, 4, 6, 5, 0, 5, 2, 5, 4]"

definition exDraws :: "nat list" where
  "exDraws = exSeedDraws @ exPickDraws"

definition exSeed :: grid where
  "exSeed =
     [[Some 6, Some 5, Some 8, None, None, None, None, None, None],
      [Some 2, Some 7, Some 4, None, None, None, None, None, None],
      [Some 1, Some 9, Some 3, None, None, None, None, None, None],
      [None, None, None, Some 9, Some 4, Some 8, None, None, None],
      [None, None, None, Some 7, Some 2, Some 6, None, None, None],
      [None, None, None, Some 3, Some 1, Some 5, None, None, None],
      [None, None, None, None, None, None, Some 9, Some 3, Some 8],
      [None, None, None, None, None, None, Some 6, Some 4, Some 5],
      [None, None, None, None, None, None, Some 7, Some 1, Some 2]]"

definition exSolution :: grid where
  "exSolution =
     [[Some 6, Some 5, Some 8, Some 1, Some 3, Some 2, Some 4, Some 7, Some 9],
      [Some 2, Some 7, Some 4, Some 5, Some 6, Some 9, Some 1, Some 8, Some 3],
      [Some 1, Some 9, Some 3, Some 4, Some 8, Some 7, Some 2, Some 5, Some 6],
      [Some 3, Some 1, Some 2, Some 9, Some 4, Some 8, Some 5, Some 6, Some 7],
      [Some 4, Some 8, Some 5, Some 7, Some 2, Some 6, Some 3, Some 9, Some 1],
      [Some 7, Some 6, Some 9, Some 3, Some 1, Some 5, Some 8, Some 2, Some 4],
      [Some 5, Some 2, Some 1, Some 6, Some 7, Some 4, Some 9, Some 3, Some 8],
      [Some 8, Some 3, Some 7, Some 2, Some 9, Some 1, Some 6, Some 4, Some 5],
      [Some 9, Some 4, Some 6, Some 8, Some 5, Some 3, Some 7, Some 1, Some 2]]"

definition exPuzzle :: grid where
  "exPuzzle =
     [[None, None, None, None, None, None, None, None, None],
      [None, None, None, None, None, Some 9, Some 1, Some 8, None],
      [None, None, None, Some 4, Some 8, None, None, Some 5, Some 6],
      [None, None, Some 2, None, None, None, None, None, None],
      [None, None, Some 5, None, Some 2, Some 6, None, Some 9, Some 1],
      [None, Some 6, None, Some 3, None, Some 5, Some 8, Some 2, Some 4],
      [Some 5, Some 2, Some 1, Some 6, Some 7, Some 4, Some 9, Some 3, Some 8],
      [Some 8, Some 3, Some 7, Some 2, Some 9, Some 1, Some 6, Some 4, Some 5],
      [Some 9, Some 4, Some 6, Some 8, Some 5, Some 3, Some 7, Some 1, Some 2]]"

text \<open>A full board that violates every constraint.\<close>

definition allOnes :: grid where
  "allOnes = replicate 9 (replicate 9 (Some 1))"

text \<open>
  The solution of the example with its first two cells emptied and a 5 put into the last
  row of the second column: the first empty cell accepts 6, after which the second one
  accepts nothing.
\<close>

definition exStuck :: grid where
  "exStuck = setCell (setCell (setCell exSolution 0 0 None) 0 1 None) 8 1 (Some 5)"

text \<open>
  A removal loop that accepts a pick only when every other digit is excluded from the
  picked cell by its row, column and box, and gives up otherwise.  On the picks it accepts
  it agrees with \<open>removeCells\<close>; it serves to compute the example run.
\<close>

fun forcedRemove :: "nat list \<Rightarrow> grid \<Rightarrow> nat \<Rightarrow> nat \<Rightarrow> grid option" where
  "forcedRemove rnd puzzle attempts target =
     (if attempts < target then
        (case rnd of
           d1 # d2 # rnd' \<Rightarrow>
             (let r = d1 mod 9; c = d2 mod 9 in
              case puzzle ! r ! c of
                None \<Rightarrow> forcedRemove rnd' puzzle attempts target
              | Some v \<Rightarrow>
                  (let puzzle1 = setCell puzzle r c None in
                   if list_all (\<lambda>n. n = v \<or> isValid puzzle1 r c n = Inr False) [1..<10]
                   then forcedRemove rnd' puzzle1 (attempts + 1) target
                   else None))
         | _ \<Rightarrow> None)
      else Some puzzle)"


section \<open>Termination of the search\<close>

text \<open>
  Both searches recurse on the board that the inner call hands back, so their termination
  rests on what that call does to the board: a call that fails puts every cell back.  The
  measure is the number of empty cells.
\<close>

lemma count_list_update:
  "c < length row \<Longrightarrow>
   count_list (row[c := v]) x + (if row ! c = x then 1 else 0)
     = count_list row x + (if v = x then 1 else 0)"
proof (induction row arbitrary: c)
  case Nil
  then show ?case by simp
next
  case (Cons a row)
  show ?case
  proof (cases c)
    case 0
    then show ?thesis by simp
  next
    case (Suc n)
    with Cons.IH [of n] Cons.prems show ?thesis by (simp split: if_splits)
  qed
qed

lemma sum_list_map_update:
  fixes f :: "'a \<Rightarrow> nat"
  shows "r < length b \<Longrightarrow> sum_list (map f (b[r := y])) + f (b ! r) = sum_list (map f b) + f y"
proof (induction b arbitrary: r)
  case Nil
  then show ?case by simp
next
  case (Cons a b)
  then show ?case by (cases r) auto
qed

lemma empties_setCell:
  assumes "inRange board row col"
  shows "empties (setCell board row col v) + (if board ! row ! col = None then 1 else 0)
           = empties board + (if v = None then 1 else 0)"
proof -
  from assms have r: "row < length board" and c: "col < length (board ! row)"
    by (simp_all add: inRange_def)
  have "empties (setCell board row col v) + count_list (board ! row) None
          = empties board + count_list ((board ! row)[col := v]) None"
    unfolding empties_def setCell_def
    using sum_list_map_update [OF r, of "\<lambda>row. count_list row None" "(board ! row)[col := v]"]
    by simp
  with count_list_update [OF c, of v None] show ?thesis by (simp split: if_splits)
qed

lemma inRange_setCell [simp]: "inRange (setCell board row col v) r c = inRange board r c"
  by (cases "r = row") (auto simp: inRange_def setCell_def)

lemma setCell_outside: "\<not> inRange board row col \<Longrightarrow> setCell board row col v = board"
  by (auto simp: inRange_def setCell_def list_update_beyond)

lemma setCell_setCell [simp]:
  "setCell (setCell board row col v) row col w = setCell board row col w"
  by (cases "row < length board") (simp_all add: setCell_def list_update_beyond)

lemma setCell_same: "inRange board row col \<Longrightarrow> board ! row ! col = v \<Longrightarrow> setCell board row col v = board"
  by (auto simp: inRange_def setCell_def)

lemma cellAt_Cell: "cellAt board row col = Inr (Cell v) \<longleftrightarrow> inRange board row col \<and> board ! row ! col = v"
  by (auto simp: cellAt_def inRange_def)

lemma findEmpty_Some:
  "findEmpty board ps = Inr (Some (row, col)) \<Longrightarrow> cellAt board row col = Inr (Cell None)"
  by (induction board ps rule: findEmpty.induct) (auto split: sum.splits if_splits)

lemma solveSudoku_restores_partial:
  "solveSudoku_tryNums_dom (Inl board) \<Longrightarrow>
     solveSudoku board = Inr (False, b') \<Longrightarrow> b' = board"
  "solveSudoku_tryNums_dom (Inr (board, row, col, num)) \<Longrightarrow>
     cellAt board row col = Inr (Cell None) \<Longrightarrow>
     tryNums board row col num = Inr (False, b') \<Longrightarrow> b' = board"
proof (induction board and board row col num arbitrary: b' and b' rule: solveSudoku_tryNums.pinduct)
  case (1 board)
  from "1.prems" "1.hyps" obtain row col where
    f: "findEmpty board cells = Inr (Some (row, col))" and
    t: "tryNums board row col 1 = Inr (False, b')"
    by (auto simp: solveSudoku.psimps split: sum.splits option.splits prod.splits)
  from "1.IH" [OF f refl refl findEmpty_Some [OF f] t] show ?case .
next
  case (2 board row col num)
  from "2.prems"(1) have rng: "inRange board row col" and emp: "board ! row ! col = None"
    by (simp_all add: cellAt_Cell)
  show ?case
  proof (cases "num \<le> 9")
    case False
    with "2.prems" "2.hyps" show ?thesis by (simp add: tryNums.psimps)
  next
    case le: True
    show ?thesis
    proof (cases "isValid board row col num")
      case (Inl e)
      with le "2.prems" "2.hyps" show ?thesis by (simp add: tryNums.psimps)
    next
      case (Inr ok)
      show ?thesis
      proof (cases ok)
        case False
        with le Inr "2.prems" "2.hyps" have "tryNums board row col (num + 1) = Inr (False, b')"
          by (simp add: tryNums.psimps)
        with "2.IH"(3) [of ok "b'"] le Inr False "2.prems"(1) show ?thesis by simp
      next
        case True
        with le Inr "2.prems" "2.hyps" obtain b1 where
          s: "solveSudoku (setCell board row col (Some num)) = Inr (False, b1)" and
          t: "tryNums (setCell b1 row col None) row col (num + 1) = Inr (False, b')"
          by (auto simp: tryNums.psimps split: sum.splits prod.splits bool.splits if_splits)
        from "2.IH"(1) [of ok b1] le Inr True s have b1: "b1 = setCell board row col (Some num)"
          by simp
        have undo: "setCell b1 row col None = board"
          using rng emp by (simp add: b1 setCell_same)
        from "2.IH"(2) [of ok "(False, b1)" False b1 "b'"] le Inr True s t undo "2.prems"(1)
        show ?thesis by simp
      qed
    qed
  qed
qed

lemma tryMeasure_placed:
  "2 * empties (setCell board row col (Some num)) + 2 < tryMeasure board row col"
proof (cases "inRange board row col")
  case True
  from empties_setCell [OF True, of "Some num"] empties_setCell [OF True, of None]
  show ?thesis by (simp add: tryMeasure_def True split: if_splits)
next
  case False
  then show ?thesis by (simp add: tryMeasure_def setCell_outside)
qed

lemma tryMeasure_found:
  "cellAt board row col = Inr (Cell None) \<Longrightarrow> tryMeasure board row col < 2 * empties board + 2"
  by (simp add: cellAt_Cell tryMeasure_def setCell_same)

lemma tryMeasure_setCell:
  "tryMeasure (setCell board row col v) row col = tryMeasure board row col"
  by (cases "inRange board row col") (simp_all add: tryMeasure_def setCell_outside)

lemma solveSudoku_total: "All solveSudoku_tryNums_dom"
proof (rule "solveSudoku_tryNums.termination"
         [of "measures [case_sum (\<lambda>board. 2 * empties board + 2)
                                 (\<lambda>(board, row, col, num). tryMeasure board row col),
                        case_sum (\<lambda>board. 0) (\<lambda>(board, row, col, num). 10 - num)]"],
       goal_cases)
  case 1
  then show ?case by simp
next
  case (2 board b x2 row col)
  then show ?case by (auto dest!: findEmpty_Some tryMeasure_found)
next
  case (3 board row col num b)
  then show ?case using tryMeasure_placed [of board row col num] by simp
next
  case (4 board row col num b ba x y)
  with solveSudoku_restores_partial(1) [of "setCell board row col (Some num)" y]
  have "y = setCell board row col (Some num)" by simp
  with 4 show ?case by (simp add: tryMeasure_setCell)
next
  case (5 board row col num b)
  then show ?case by simp
qed

termination solveSudoku
  by (rule solveSudoku_total)

declare solveSudoku.simps [simp del] tryNums.simps [simp del]

lemma solveSudoku_restores: "solveSudoku board = Inr (False, b') \<Longrightarrow> b' = board"
  by (rule solveSudoku_restores_partial(1) [OF spec [OF solveSudoku_total]])


lemma count_restores_partial:
  "solve_solveNums_dom (Inl (count, b)) \<Longrightarrow>
     solve count b = Inr (n, b') \<Longrightarrow> b' = b"
  "solve_solveNums_dom (Inr (count, b, row, col, num)) \<Longrightarrow>
     cellAt b row col = Inr (Cell None) \<Longrightarrow>
     solveNums count b row col num = Inr (n, b') \<Longrightarrow> b' = b"
proof (induction count b and count b row col num arbitrary: n b' and n b'
       rule: solve_solveNums.pinduct)
  case (1 count b)
  show ?case
  proof (cases "findEmpty b cells")
    case (Inl e)
    with "1.prems" "1.hyps" show ?thesis by (simp add: solve.psimps)
  next
    case (Inr found)
    show ?thesis
    proof (cases found)
      case None
      with Inr "1.prems" "1.hyps" show ?thesis by (simp add: solve.psimps)
    next
      case (Some p)
      obtain row col where p: "p = (row, col)" by (cases p)
      from Inr Some p "1.prems" "1.hyps" have t: "solveNums count b row col 1 = Inr (n, b')"
        by (simp add: solve.psimps)
      from Inr Some p have f: "findEmpty b cells = Inr (Some (row, col))" by simp
      from "1.IH" [OF f refl refl findEmpty_Some [OF f] t] show ?thesis .
    qed
  qed
next
  case (2 count b row col num)
  from "2.prems"(1) have rng: "inRange b row col" and emp: "b ! row ! col = None"
    by (simp_all add: cellAt_Cell)
  show ?case
  proof (cases "num \<le> 9")
    case False
    with "2.prems" "2.hyps" show ?thesis by (simp add: solveNums.psimps)
  next
    case le: True
    show ?thesis
    proof (cases "isValid b row col num")
      case (Inl e)
      with le "2.prems" "2.hyps" show ?thesis by (simp add: solveNums.psimps)
    next
      case (Inr ok)
      show ?thesis
      proof (cases ok)
        case False
        with le Inr "2.prems" "2.hyps" have "solveNums count b row col (num + 1) = Inr (n, b')"
          by (simp add: solveNums.psimps)
        with "2.IH"(3) [of ok n "b'"] le Inr False "2.prems"(1) show ?thesis by simp
      next
        case True
        with le Inr "2.prems" "2.hyps" obtain c1 b1 where
          s: "solve count (setCell b row col (Some num)) = Inr (c1, b1)" and
          t: "(if c1 > 1 then Inr (c1, setCell b1 row col None)
               else solveNums c1 (setCell b1 row col None) row col (num + 1)) = Inr (n, b')"
          by (auto simp: solveNums.psimps split: sum.splits prod.splits)
        from "2.IH"(1) [of ok c1 b1] le Inr True s have b1: "b1 = setCell b row col (Some num)"
          by simp
        have undo: "setCell b1 row col None = b"
          using rng emp by (simp add: b1 setCell_same)
        show ?thesis
        proof (cases "c1 > 1")
          case True
          with t undo show ?thesis by simp
        next
          case False
          with "2.IH"(2) [of ok "(c1, b1)" c1 b1 n "b'"] le Inr \<open>ok\<close> s t undo "2.prems"(1)
          show ?thesis by simp
        qed
      qed
    qed
  qed
qed

lemma solve_total: "All solve_solveNums_dom"
proof (rule "solve_solveNums.termination"
         [of "measures [case_sum (\<lambda>(count, b). 2 * empties b + 2)
                                 (\<lambda>(count, b, row, col, num). tryMeasure b row col),
                        case_sum (\<lambda>(count, b). 0) (\<lambda>(count, b, row, col, num). 10 - num)]"],
       goal_cases)
  case 1
  then show ?case by simp
next
  case (2 count b found p row col)
  then show ?case by (auto dest!: findEmpty_Some tryMeasure_found)
next
  case (3 count b row col num ok)
  then show ?case using tryMeasure_placed [of b row col num] by simp
next
  case (4 count b row col num ok res c1 b1)
  with count_restores_partial(1) [of count "setCell b row col (Some num)" c1 b1]
  have "b1 = setCell b row col (Some num)" by simp
  with 4 show ?case by (simp add: tryMeasure_setCell)
next
  case (5 count b row col num ok)
  then show ?case by simp
qed

termination solve
  by (rule solve_total)

declare solve.simps [simp del] solveNums.simps [simp del]

lemma solve_restores: "solve count board = Inr (n, b') \<Longrightarrow> b' = board"
  by (rule count_restores_partial(1) [OF spec [OF solve_total]])


declare removeCells.simps [simp del]

section \<open>Boards of nine by nine cells\<close>

lemma grid9_row: "grid9 board \<Longrightarrow> r < 9 \<Longrightarrow> length (board ! r) = 9"
  by (simp add: grid9_def)

lemma grid9_length: "grid9 board \<Longrightarrow> length board = 9"
  by (simp add: grid9_def)

lemma grid9_setCell [simp]: "grid9 (setCell board row col v) = grid9 board"
proof -
  have "(\<forall>i<length board. length (board[row := (board ! row)[col := v]] ! i) = 9)
          \<longleftrightarrow> (\<forall>i<length board. length (board ! i) = 9)"
    by (cases "row < length board") (auto simp: nth_list_update list_update_beyond)
  then show ?thesis
    by (simp add: grid9_def setCell_def all_set_conv_all_nth)
qed

lemma grid9_inRange: "grid9 board \<Longrightarrow> r < 9 \<Longrightarrow> c < 9 \<Longrightarrow> inRange board r c"
  by (simp add: inRange_def grid9_def)

lemma cellAt_grid9:
  "grid9 board \<Longrightarrow> r < 9 \<Longrightarrow> c < 9 \<Longrightarrow> cellAt board r c = Inr (Cell (board ! r ! c))"
  by (simp add: cellAt_def grid9_def)

lemma nth_setCell:
  "inRange board r' c' \<Longrightarrow>
   setCell board r c v ! r' ! c' = (if r' = r \<and> c' = c then v else board ! r' ! c')"
  by (cases "r' = r"; cases "c' = c") (auto simp: inRange_def setCell_def)

lemma nth_setCell9:
  "grid9 board \<Longrightarrow> r' < 9 \<Longrightarrow> c' < 9 \<Longrightarrow>
   setCell board r c v ! r' ! c' = (if r' = r \<and> c' = c then v else board ! r' ! c')"
  by (simp add: nth_setCell grid9_inRange)

lemma deepCopy_id [simp]: "deepCopy board = board"
  by (simp add: deepCopy_def)

section \<open>The constraint checker on a 9x9 board\<close>

lemma hasNum_grid9:
  "grid9 board \<Longrightarrow> \<forall>(r, c) \<in> set ps. r < 9 \<and> c < 9 \<Longrightarrow>
   hasNum board num ps = Inr (\<exists>(r, c) \<in> set ps. board ! r ! c = Some num)"
  by (induction board num ps rule: hasNum.induct) (auto simp: cellAt_grid9)

lemma box_start: "r - r mod 3 = 3 * (r div (3::nat))"
  by (simp add: minus_mod_eq_mult_div)

lemma box_index:
  assumes "i < 3" "r < 9"
  shows "i + r - r mod 3 < (9::nat)"
proof -
  have "r div 3 < 3" using assms(2) by (simp add: less_mult_imp_div_less)
  moreover have "i + r - r mod 3 = i + (r - r mod 3)" by simp
  ultimately show ?thesis using assms(1) by (simp add: box_start)
qed

lemma isValid_grid9:
  assumes "grid9 board" "row < 9" "col < 9"
  shows "isValid board row col num
           = Inr (\<not> (inRow board row num \<or> inCol board col num \<or> inBox board row col num))"
proof -
  have r: "hasNum board num (map (\<lambda>x. (row, x)) [0..<9]) = Inr (inRow board row num)"
    using assms by (subst hasNum_grid9) (auto simp: inRow_def)
  have c: "hasNum board num (map (\<lambda>x. (x, col)) [0..<9]) = Inr (inCol board col num)"
    using assms by (subst hasNum_grid9) (auto simp: inCol_def)
  have b: "hasNum board num
             (concat (map (\<lambda>i. map (\<lambda>j. (i + (row - row mod 3), j + (col - col mod 3))) [0..<3]) [0..<3]))
           = Inr (inBox board row col num)"
    using assms by (subst hasNum_grid9) (auto simp: inBox_def box_index)
  show ?thesis
    unfolding isValid_def Let_def r c b by (simp split: bool.splits)
qed

section \<open>Units and peers\<close>

lemma upt_3: "[0..<3] = [0, 1, 2]"
  by (simp add: upt_rec)

lemma div3_iff: "(\<exists>i<3. r = 3 * a + i) \<longleftrightarrow> r div 3 = (a::nat)"
proof
  assume "\<exists>i<3. r = 3 * a + i"
  then show "r div 3 = a" by auto
next
  assume "r div 3 = a"
  then have "r = 3 * a + r mod 3" by auto
  moreover have "r mod 3 < 3" by simp
  ultimately show "\<exists>i<3. r = 3 * a + i" by blast
qed

lemma set_rowCells: "set (rowCells r) = {r} \<times> {0..<9}"
  by (auto simp: rowCells_def)

lemma set_colCells: "set (colCells c) = {0..<9} \<times> {c}"
  by (auto simp: colCells_def)

lemma set_boxCells: "set (boxCells k) = {(r, c). r div 3 = k div 3 \<and> c div 3 = k mod 3}"
proof -
  have "set (boxCells k) = {(r, c). (\<exists>i<3. r = 3 * (k div 3) + i) \<and> (\<exists>j<3. c = 3 * (k mod 3) + j)}"
    by (auto simp: boxCells_def)
  then show ?thesis by (simp only: div3_iff)
qed

lemma distinct_rowCells: "distinct (rowCells r)"
  by (simp add: rowCells_def distinct_map inj_on_def)

lemma distinct_colCells: "distinct (colCells c)"
  by (simp add: colCells_def distinct_map inj_on_def)

lemma distinct_boxCells: "distinct (boxCells k)"
  by (simp add: boxCells_def upt_3)

lemma length_units: "u \<in> set units \<Longrightarrow> length u = 9"
  by (auto simp: units_def rowCells_def colCells_def boxCells_def upt_3)

lemma distinct_units: "u \<in> set units \<Longrightarrow> distinct u"
  by (auto simp: units_def distinct_rowCells distinct_colCells distinct_boxCells)

lemma div3_less9: "r div 3 < 3 \<longleftrightarrow> r < (9::nat)"
  by (simp add: div_less_iff_less_mult)

lemma units_positions: "u \<in> set units \<Longrightarrow> set u \<subseteq> positions"
proof -
  have "r < 9" if "k < 9" "r div 3 = k div 3" for k r :: nat
    using that div3_less9 [of r] div3_less9 [of k] by simp
  moreover have "c < 9" if "c div 3 = k mod 3" for k c :: nat
    using that div3_less9 [of c] by simp
  ultimately show "u \<in> set units \<Longrightarrow> set u \<subseteq> positions"
    by (auto simp: units_def set_rowCells set_colCells set_boxCells positions_def)
qed

lemma unit_peer:
  assumes "u \<in> set units" "p \<in> set u" "q \<in> set u"
  shows "peer p q"
  using assms by (auto simp: units_def set_rowCells set_colCells set_boxCells peer_def)

lemma peer_unit:
  assumes "p \<in> positions" "q \<in> positions" "peer p q"
  shows "\<exists>u \<in> set units. p \<in> set u \<and> q \<in> set u"
proof -
  obtain r c where p: "p = (r, c)" by (cases p)
  obtain r' c' where q: "q = (r', c')" by (cases q)
  from assms(1,2) have lt: "r < 9" "c < 9" "r' < 9" "c' < 9" by (simp_all add: p q positions_def)
  from assms(3) consider "r = r'" | "c = c'" | "r div 3 = r' div 3 \<and> c div 3 = c' div 3"
    by (auto simp: peer_def p q)
  then show ?thesis
  proof cases
    case 1
    have "rowCells r \<in> set units" using lt by (simp add: units_def)
    with 1 lt show ?thesis by (intro bexI [of _ "rowCells r"]) (auto simp: p q set_rowCells)
  next
    case 2
    have "colCells c \<in> set units" using lt by (simp add: units_def)
    with 2 lt show ?thesis by (intro bexI [of _ "colCells c"]) (auto simp: p q set_colCells)
  next
    case 3
    let ?k = "3 * (r div 3) + c div 3"
    have c3: "c div 3 < 3" and r3: "r div 3 < 3" using lt by (simp_all add: div3_less9)
    then have "?k < 9" by simp
    then have u: "boxCells ?k \<in> set units" by (simp add: units_def)
    from c3 have "?k div 3 = r div 3" "?k mod 3 = c div 3" by simp_all
    with 3 have "p \<in> set (boxCells ?k)" "q \<in> set (boxCells ?k)"
      by (simp_all add: set_boxCells p q)
    with u show ?thesis by blast
  qed
qed

lemma position_in_unit: "p \<in> positions \<Longrightarrow> \<exists>u \<in> set units. p \<in> set u"
  using peer_unit [of p p] by (auto simp: peer_def)

lemma distinct_filter_map:
  "distinct xs \<Longrightarrow>
   distinct (filter P (map f xs))
     \<longleftrightarrow> (\<forall>x \<in> set xs. \<forall>y \<in> set xs. x \<noteq> y \<longrightarrow> P (f x) \<longrightarrow> f x \<noteq> f y)"
proof (induction xs)
  case Nil
  then show ?case by simp
next
  case (Cons a xs)
  have "f a \<notin> set (filter P (map f xs)) \<longleftrightarrow> (\<forall>y \<in> set xs. P (f a) \<longrightarrow> f a \<noteq> f y)"
    by auto
  moreover have "(\<forall>y \<in> set xs. P (f a) \<longrightarrow> f a \<noteq> f y)
                   \<longleftrightarrow> (\<forall>y \<in> set xs. P (f y) \<longrightarrow> f y \<noteq> f a)"
    by metis
  ultimately show ?case using Cons by auto
qed

lemma valuesAt_cellOf: "valuesAt board ps = map (cellOf board) ps"
  by (simp add: valuesAt_def cellOf_def case_prod_beta)

lemma noDuplicates_consistent: "noDuplicates board \<longleftrightarrow> consistent board"
proof
  assume nd: "noDuplicates board"
  show "consistent board"
    unfolding consistent_def
  proof (intro ballI impI)
    fix p q assume pq: "p \<in> positions" "q \<in> positions" "p \<noteq> q" "peer p q"
      and ne: "cellOf board p \<noteq> None"
    from peer_unit [OF pq(1,2,4)] obtain u where u: "u \<in> set units" "p \<in> set u" "q \<in> set u"
      by blast
    with nd have "distinct (filter (\<lambda>v. v \<noteq> None) (map (cellOf board) u))"
      by (simp add: noDuplicates_def valuesAt_cellOf)
    with distinct_units [OF u(1)] u pq(3) ne show "cellOf board p \<noteq> cellOf board q"
      by (simp add: distinct_filter_map)
  qed
next
  assume c: "consistent board"
  show "noDuplicates board"
    unfolding noDuplicates_def
  proof
    fix u assume u: "u \<in> set units"
    have "\<forall>x \<in> set u. \<forall>y \<in> set u. x \<noteq> y \<longrightarrow> cellOf board x \<noteq> None \<longrightarrow> cellOf board x \<noteq> cellOf board y"
    proof (intro ballI impI)
      fix x y assume xy: "x \<in> set u" "y \<in> set u" "x \<noteq> y" "cellOf board x \<noteq> None"
      from xy(1,2) units_positions [OF u] have "x \<in> positions" "y \<in> positions" by auto
      with c xy(3,4) unit_peer [OF u xy(1,2)] show "cellOf board x \<noteq> cellOf board y"
        unfolding consistent_def by blast
    qed
    with distinct_units [OF u]
    show "distinct (filter (\<lambda>v. v \<noteq> None) (valuesAt board u))"
      by (simp add: distinct_filter_map valuesAt_cellOf)
  qed
qed

section \<open>Solution grids\<close>

lemma cellOf_simp [simp]: "cellOf board (r, c) = board ! r ! c"
  by (simp add: cellOf_def)

lemma positions_iff [simp]: "(r, c) \<in> positions \<longleftrightarrow> r < 9 \<and> c < 9"
  by (auto simp: positions_def)

lemma peer_sym: "peer p q \<Longrightarrow> peer q p"
  by (auto simp: peer_def)

lemma card_digits: "card (Some ` {1..9::nat}) = 9"
  by (simp add: card_image)

lemma validSolution_iff:
  "validSolution s \<longleftrightarrow>
     grid9 s \<and> (\<forall>p \<in> positions. cellOf s p \<in> Some ` {1..9}) \<and> consistent s"
proof
  assume v: "validSolution s"
  have perm: "distinct (map (cellOf s) u) \<and> set (map (cellOf s) u) = Some ` {1..9}"
    if "u \<in> set units" for u
    using v that by (simp add: validSolution_def isPermutation19_def valuesAt_cellOf)
  have dig: "\<forall>p \<in> positions. cellOf s p \<in> Some ` {1..9}"
  proof
    fix p assume "p \<in> positions"
    from position_in_unit [OF this] obtain u where u: "u \<in> set units" "p \<in> set u" by blast
    from perm [OF u(1)] have "set (map (cellOf s) u) = Some ` {1..9}" by simp
    with u(2) show "cellOf s p \<in> Some ` {1..9}" by (metis image_eqI set_map)
  qed
  have "consistent s"
    unfolding consistent_def
  proof (intro ballI impI)
    fix p q assume pq: "p \<in> positions" "q \<in> positions" "p \<noteq> q" "peer p q"
    from peer_unit [OF pq(1,2,4)] obtain u where u: "u \<in> set units" "p \<in> set u" "q \<in> set u"
      by blast
    from perm [OF u(1)] have "inj_on (cellOf s) (set u)" by (simp add: distinct_map)
    with u(2,3) pq(3) show "cellOf s p \<noteq> cellOf s q" by (auto dest: inj_onD)
  qed
  with v dig show "grid9 s \<and> (\<forall>p \<in> positions. cellOf s p \<in> Some ` {1..9}) \<and> consistent s"
    by (simp add: validSolution_def)
next
  assume a: "grid9 s \<and> (\<forall>p \<in> positions. cellOf s p \<in> Some ` {1..9}) \<and> consistent s"
  have "isPermutation19 (valuesAt s u)" if u: "u \<in> set units" for u
  proof -
    have sub: "set u \<subseteq> positions" by (rule units_positions [OF u])
    have inj: "inj_on (cellOf s) (set u)"
    proof (rule inj_onI)
      fix x y assume xy: "x \<in> set u" "y \<in> set u" "cellOf s x = cellOf s y"
      show "x = y"
      proof (rule ccontr)
        assume ne: "x \<noteq> y"
        from xy sub have "x \<in> positions" "y \<in> positions" by auto
        moreover from this a have "cellOf s x \<noteq> None" by auto
        ultimately have "cellOf s x \<noteq> cellOf s y"
          using a ne unit_peer [OF u xy(1,2)] unfolding consistent_def by blast
        with xy(3) show False by simp
      qed
    qed
    then have d: "distinct (map (cellOf s) u)"
      by (simp add: distinct_map distinct_units [OF u])
    have ss: "set (map (cellOf s) u) \<subseteq> Some ` {1..9}" using a sub by auto
    have "card (set (map (cellOf s) u)) = 9"
      using distinct_card [OF d] length_units [OF u] by simp
    then have "card (set (map (cellOf s) u)) = card (Some ` {1..9::nat})"
      by (simp only: card_digits)
    with ss have "set (map (cellOf s) u) = Some ` {1..9}"
      by (intro card_subset_eq) simp_all
    with d show ?thesis by (simp add: isPermutation19_def valuesAt_cellOf)
  qed
  with a show "validSolution s" by (simp add: validSolution_def)
qed

lemma grid9_eqI:
  assumes "grid9 s" "grid9 t" "\<And>r c. r < 9 \<Longrightarrow> c < 9 \<Longrightarrow> s ! r ! c = t ! r ! c"
  shows "s = t"
proof (rule nth_equalityI)
  show "length s = length t" using assms(1,2) by (simp add: grid9_def)
next
  fix r assume "r < length s"
  with assms(1) have r: "r < 9" by (simp add: grid9_def)
  show "s ! r = t ! r"
  proof (rule nth_equalityI)
    show "length (s ! r) = length (t ! r)" using assms(1,2) r by (simp add: grid9_row)
  next
    fix c assume "c < length (s ! r)"
    with assms(1) r have "c < 9" by (simp add: grid9_row)
    with r show "s ! r ! c = t ! r ! c" by (rule assms(3))
  qed
qed

section \<open>Placing a digit\<close>

lemma ball_positions: "(\<forall>q \<in> positions. P q) \<longleftrightarrow> (\<forall>r<9. \<forall>c<9. P (r, c))"
  by (simp add: positions_def Ball_def) blast

lemma bex_positions: "(\<exists>q \<in> positions. P q) \<longleftrightarrow> (\<exists>r<9. \<exists>c<9. P (r, c))"
  by (simp add: positions_def Bex_def)

lemma box_rows: "(\<exists>i \<in> {0..<3}. r' = i + (r - r mod 3)) \<longleftrightarrow> r' div 3 = r div (3::nat)"
proof -
  have "(\<exists>i \<in> {0..<3}. r' = i + (r - r mod 3)) \<longleftrightarrow> (\<exists>i<3. r' = 3 * (r div 3) + i)"
    by (auto simp: box_start)
  then show ?thesis by (simp only: div3_iff)
qed

lemma conflict_peer:
  assumes "r < 9" "c < 9"
  shows "inRow board r n \<or> inCol board c n \<or> inBox board r c n
           \<longleftrightarrow> (\<exists>q \<in> positions. peer (r, c) q \<and> cellOf board q = Some n)"
proof -
  have row: "inRow board r n \<longleftrightarrow> (\<exists>q \<in> positions. r = fst q \<and> cellOf board q = Some n)"
    using assms by (simp add: inRow_def bex_positions Bex_def) blast
  have col: "inCol board c n \<longleftrightarrow> (\<exists>q \<in> positions. c = snd q \<and> cellOf board q = Some n)"
    using assms by (simp add: inCol_def bex_positions Bex_def)
  have "inBox board r c n
          \<longleftrightarrow> (\<exists>r' c'. (\<exists>i \<in> {0..<3}. r' = i + (r - r mod 3)) \<and> (\<exists>j \<in> {0..<3}. c' = j + (c - c mod 3))
                 \<and> board ! r' ! c' = Some n)"
    unfolding inBox_def by blast
  also have "\<dots> \<longleftrightarrow> (\<exists>r' c'. r' div 3 = r div 3 \<and> c' div 3 = c div 3 \<and> board ! r' ! c' = Some n)"
    by (simp only: box_rows)
  also have "\<dots> \<longleftrightarrow> (\<exists>q \<in> positions. r div 3 = fst q div 3 \<and> c div 3 = snd q div 3
                         \<and> cellOf board q = Some n)"
  proof
    assume "\<exists>r' c'. r' div 3 = r div 3 \<and> c' div 3 = c div 3 \<and> board ! r' ! c' = Some n"
    then obtain r' c' where h: "r' div 3 = r div 3" "c' div 3 = c div 3" "board ! r' ! c' = Some n"
      by blast
    from h(1,2) assms have "r' < 9" "c' < 9"
      using div3_less9 [of r] div3_less9 [of c] div3_less9 [of r'] div3_less9 [of c'] by simp_all
    with h show "\<exists>q \<in> positions. r div 3 = fst q div 3 \<and> c div 3 = snd q div 3
                   \<and> cellOf board q = Some n"
      by (intro bexI [of _ "(r', c')"]) simp_all
  next
    assume "\<exists>q \<in> positions. r div 3 = fst q div 3 \<and> c div 3 = snd q div 3 \<and> cellOf board q = Some n"
    then obtain q where "r div 3 = fst q div 3" "c div 3 = snd q div 3" "cellOf board q = Some n"
      by blast
    then show "\<exists>r' c'. r' div 3 = r div 3 \<and> c' div 3 = c div 3 \<and> board ! r' ! c' = Some n"
      by (intro exI [of _ "fst q"] exI [of _ "snd q"]) (simp add: cellOf_def)
  qed
  finally have box: "inBox board r c n
          \<longleftrightarrow> (\<exists>q \<in> positions. r div 3 = fst q div 3 \<and> c div 3 = snd q div 3
                 \<and> cellOf board q = Some n)" .
  show ?thesis
    unfolding row col box peer_def fst_conv snd_conv by blast
qed

lemma isValid_peer:
  assumes "grid9 board" "r < 9" "c < 9"
  shows "isValid board r c n
           = Inr (\<not> (\<exists>q \<in> positions. peer (r, c) q \<and> cellOf board q = Some n))"
  using isValid_grid9 [OF assms] conflict_peer [OF assms(2,3)] by simp

lemma cellOf_setCell:
  "grid9 board \<Longrightarrow> q \<in> positions \<Longrightarrow>
   cellOf (setCell board r c v) q = (if q = (r, c) then v else cellOf board q)"
  by (cases q) (simp add: nth_setCell9)

lemma consistent_place:
  assumes g: "grid9 board" and p: "(r, c) \<in> positions" and c: "consistent board"
    and ok: "\<not> (\<exists>q \<in> positions. peer (r, c) q \<and> cellOf board q = Some n)"
  shows "consistent (setCell board r c (Some n))"
  unfolding consistent_def
proof (intro ballI impI)
  fix x y assume xy: "x \<in> positions" "y \<in> positions" "x \<noteq> y" "peer x y"
    and ne: "cellOf (setCell board r c (Some n)) x \<noteq> None"
  show "cellOf (setCell board r c (Some n)) x \<noteq> cellOf (setCell board r c (Some n)) y"
  proof (cases "x = (r, c)")
    case True
    with xy ok have "cellOf board y \<noteq> Some n" by blast
    with True xy g show ?thesis by (simp add: cellOf_setCell nth_setCell9)
  next
    case xf: False
    show ?thesis
    proof (cases "y = (r, c)")
      case True
      with xy ok peer_sym have "cellOf board x \<noteq> Some n" by blast
      with True xf xy g show ?thesis by (simp add: cellOf_setCell nth_setCell9)
    next
      case False
      with xf xy g ne c show ?thesis
        unfolding consistent_def by (simp add: cellOf_setCell)
    qed
  qed
qed

lemma agrees_iff: "agrees p s \<longleftrightarrow> (\<forall>q \<in> positions. cellOf p q \<noteq> None \<longrightarrow> cellOf p q = cellOf s q)"
  by (auto simp: agrees_def ball_positions)

lemma completion_value_ok:
  assumes comp: "completion board s" and p: "(r, c) \<in> positions"
    and e: "cellOf board (r, c) = None" and v: "cellOf s (r, c) = Some n"
  shows "\<not> (\<exists>q \<in> positions. peer (r, c) q \<and> cellOf board q = Some n)"
proof
  assume "\<exists>q \<in> positions. peer (r, c) q \<and> cellOf board q = Some n"
  then obtain q where q: "q \<in> positions" "peer (r, c) q" "cellOf board q = Some n" by blast
  with e have ne: "(r, c) \<noteq> q" by auto
  from comp q have "cellOf s q = Some n" by (auto simp: completion_def agrees_iff)
  moreover from comp have "consistent s" by (simp add: completion_def validSolution_iff)
  ultimately show False using p q(1,2) ne v unfolding consistent_def by (metis option.distinct(1))
qed

lemma completion_place:
  assumes g: "grid9 board" and p: "(r, c) \<in> positions" and e: "cellOf board (r, c) = None"
  shows "completion (setCell board r c (Some n)) s
           \<longleftrightarrow> completion board s \<and> cellOf s (r, c) = Some n"
proof -
  have "agrees (setCell board r c (Some n)) s \<longleftrightarrow> agrees board s \<and> cellOf s (r, c) = Some n"
    unfolding agrees_iff using g p e by (auto simp: cellOf_setCell)
  then show ?thesis by (auto simp: completion_def)
qed

section \<open>The scan for an empty cell\<close>

lemma set_cells: "set cells = positions"
  by (auto simp: cells_def positions_def)

lemma find_SomeD: "find P xs = Some x \<Longrightarrow> x \<in> set xs \<and> P x"
  by (induction xs) (auto split: if_splits)

lemma findEmpty_grid9:
  "grid9 board \<Longrightarrow> set ps \<subseteq> positions \<Longrightarrow>
   findEmpty board ps = Inr (find (\<lambda>p. cellOf board p = None) ps)"
  by (induction board ps rule: findEmpty.induct) (auto simp: cellAt_grid9)

lemma findEmpty_cells:
  "grid9 board \<Longrightarrow> findEmpty board cells = Inr (find (\<lambda>p. cellOf board p = None) cells)"
  by (simp add: findEmpty_grid9 set_cells)

lemma all_cells_iff:
  assumes "grid9 board"
  shows "(\<forall>row \<in> set board. \<forall>v \<in> set row. P v) \<longleftrightarrow> (\<forall>p \<in> positions. P (cellOf board p))"
proof -
  have "(\<forall>row \<in> set board. \<forall>v \<in> set row. P v)
          \<longleftrightarrow> (\<forall>r<length board. \<forall>c<length (board ! r). P (board ! r ! c))"
    by (simp add: all_set_conv_all_nth)
  also have "\<dots> \<longleftrightarrow> (\<forall>r<9. \<forall>c<9. P (board ! r ! c))"
    using assms by (auto simp: grid9_def)
  finally show ?thesis by (simp add: ball_positions)
qed

lemma noEmpty_iff: "grid9 board \<Longrightarrow> noEmpty board \<longleftrightarrow> (\<forall>p \<in> positions. cellOf board p \<noteq> None)"
  using all_cells_iff [of board "\<lambda>v. v \<noteq> None"] by (auto simp: noEmpty_def)

lemma digits19_iff:
  "grid9 board \<Longrightarrow>
   digits19 board \<longleftrightarrow> (\<forall>p \<in> positions. cellOf board p = None \<or> cellOf board p \<in> Some ` {1..9})"
  using all_cells_iff [of board "\<lambda>v. v = None \<or> v \<in> Some ` {1..9}"] by (simp add: digits19_def)

lemma digits19_place:
  assumes "grid9 board" "digits19 board" "1 \<le> n" "n \<le> 9"
  shows "digits19 (setCell board r c (Some n))"
  using assms by (auto simp: digits19_iff cellOf_setCell)

lemma full_valid:
  assumes "grid9 board" "digits19 board" "consistent board" "\<forall>p \<in> positions. cellOf board p \<noteq> None"
  shows "validSolution board"
  using assms by (auto simp: validSolution_iff digits19_iff)

lemma agrees_refl: "agrees board board"
  by (simp add: agrees_def)

lemma completion_digit:
  assumes "completion board s" "(r, c) \<in> positions"
  obtains v where "s ! r ! c = Some v" "1 \<le> v" "v \<le> 9"
proof -
  from assms have "cellOf s (r, c) \<in> Some ` {1..9}"
    by (simp add: completion_def validSolution_iff del: cellOf_simp positions_iff)
  then obtain v where "cellOf s (r, c) = Some v" "v \<in> {1..9}" by blast
  then show thesis using that [of v] by simp
qed

section \<open>Correctness of the solver\<close>

lemma tryNums_done: "\<not> num \<le> 9 \<Longrightarrow> tryNums board row col num = Inr (False, board)"
  by (subst tryNums.simps) simp

lemma tryNums_invalid:
  "num \<le> 9 \<Longrightarrow> isValid board row col num = Inr False \<Longrightarrow>
   tryNums board row col num = tryNums board row col (num + 1)"
  by (subst tryNums.simps) simp

lemma tryNums_valid:
  "num \<le> 9 \<Longrightarrow> isValid board row col num = Inr True \<Longrightarrow>
   tryNums board row col num =
     (case solveSudoku (setCell board row col (Some num)) of
        Inl e \<Rightarrow> Inl e
      | Inr (True, board') \<Rightarrow> Inr (True, board')
      | Inr (False, board') \<Rightarrow> tryNums (setCell board' row col None) row col (num + 1))"
  by (subst tryNums.simps) simp

lemma solver_correct:
  "grid9 board \<Longrightarrow> digits19 board \<Longrightarrow> consistent board \<Longrightarrow>
     (\<exists>s. solveSudoku board = Inr (True, s) \<and> completion board s)
     \<or> (solveSudoku board = Inr (False, board) \<and> (\<forall>s. \<not> completion board s))"
  "grid9 board \<Longrightarrow> digits19 board \<Longrightarrow> consistent board \<Longrightarrow>
   (row, col) \<in> positions \<Longrightarrow> cellOf board (row, col) = None \<Longrightarrow> 1 \<le> num \<Longrightarrow>
     (\<exists>s. tryNums board row col num = Inr (True, s) \<and> completion board s)
     \<or> (tryNums board row col num = Inr (False, board)
         \<and> (\<forall>s v. completion board s \<longrightarrow> s ! row ! col = Some v \<longrightarrow> v < num))"
proof (induction board and board row col num rule: solveSudoku_tryNums.induct)
  case (1 board)
  note g = \<open>grid9 board\<close>
  show ?case
  proof (cases "find (\<lambda>p. cellOf board p = None) cells")
    case None
    then have full: "\<forall>p \<in> positions. cellOf board p \<noteq> None"
      unfolding find_None_iff set_cells by (auto simp del: cellOf_simp positions_iff)
    from None g have "solveSudoku board = Inr (True, board)"
      by (simp add: solveSudoku.simps findEmpty_cells)
    moreover have "completion board board"
      using full_valid [OF g "1.prems"(2,3) full] by (simp add: completion_def agrees_refl)
    ultimately show ?thesis by blast
  next
    case (Some p)
    obtain row col where p: "p = (row, col)" by (cases p)
    from find_SomeD [OF Some] have pos: "(row, col) \<in> positions"
      and e: "cellOf board (row, col) = None"
      unfolding p set_cells by blast+
    from Some g have f: "findEmpty board cells = Inr (Some (row, col))"
      by (simp add: findEmpty_cells p)
    then have s: "solveSudoku board = tryNums board row col 1"
      by (simp add: solveSudoku.simps)
    have one: "(1::nat) \<le> 1" by simp
    from "1.IH" [OF f refl refl g "1.prems"(2,3) pos e one]
    show ?thesis
    proof (elim disjE exE conjE)
      fix s' assume "tryNums board row col 1 = Inr (True, s')" "completion board s'"
      with s show ?thesis by auto
    next
      assume f: "tryNums board row col 1 = Inr (False, board)"
        and a: "\<forall>s v. completion board s \<longrightarrow> s ! row ! col = Some v \<longrightarrow> v < 1"
      have "\<not> completion board s'" for s'
      proof
        assume c: "completion board s'"
        from completion_digit [OF c pos] obtain v where v: "s' ! row ! col = Some v" "1 \<le> v"
          by blast
        from a c v(1) have "v < 1" by blast
        with v(2) show False by simp
      qed
      with f s show ?thesis by simp
    qed
  qed
next
  case (2 board row col num)
  note g = \<open>grid9 board\<close> and d = \<open>digits19 board\<close> and c = \<open>consistent board\<close>
    and pos = \<open>(row, col) \<in> positions\<close> and e = \<open>cellOf board (row, col) = None\<close>
    and n1 = \<open>1 \<le> num\<close>
  from pos have rc: "row < 9" "col < 9" by simp_all
  from n1 have n2: "1 \<le> num + 1" by simp
  show ?case
  proof (cases "num \<le> 9")
    case False
    then have "tryNums board row col num = Inr (False, board)"
      by (rule tryNums_done)
    moreover have "v < num" if "completion board s" "s ! row ! col = Some v" for s v
    proof -
      from completion_digit [OF that(1) pos] obtain w where "s ! row ! col = Some w" "w \<le> 9"
        by blast
      with that(2) False show ?thesis by simp
    qed
    ultimately show ?thesis by blast
  next
    case le: True
    let ?ok = "\<not> (\<exists>q \<in> positions. peer (row, col) q \<and> cellOf board q = Some num)"
    have iv: "isValid board row col num = Inr ?ok"
      by (rule isValid_peer [OF g rc])
    show ?thesis
    proof (cases ?ok)
      case False
      with iv have "isValid board row col num = Inr False" by simp
      from tryNums_invalid [OF le this]
      have t: "tryNums board row col num = tryNums board row col (num + 1)" .
      have nn: "v \<noteq> num" if "completion board s" "s ! row ! col = Some v" for s v
      proof
        assume "v = num"
        with that(2) have "cellOf s (row, col) = Some num" by simp
        from completion_value_ok [OF that(1) pos e this] False show False by simp
      qed
      from False have okF: "?ok = False" by simp
      from "2.IH"(3) [OF le iv okF g d c pos e n2]
      show ?thesis
      proof (elim disjE exE conjE)
        fix s assume "tryNums board row col (num + 1) = Inr (True, s)" "completion board s"
        with t show ?thesis by auto
      next
        assume f: "tryNums board row col (num + 1) = Inr (False, board)"
          and a: "\<forall>s v. completion board s \<longrightarrow> s ! row ! col = Some v \<longrightarrow> v < num + 1"
        have "v < num" if "completion board s" "s ! row ! col = Some v" for s v
        proof -
          from a that have "v < num + 1" by blast
          with nn [OF that] show ?thesis by simp
        qed
        with f t show ?thesis by simp
      qed
    next
      case ok: True
      then have okT: "?ok = True" by simp
      let ?b1 = "setCell board row col (Some num)"
      have g1: "grid9 ?b1" using g by simp
      have d1: "digits19 ?b1" by (rule digits19_place [OF g d n1 le])
      have c1: "consistent ?b1" by (rule consistent_place [OF g pos c ok])
      have undo: "setCell ?b1 row col None = board"
        using g rc e by (simp add: setCell_same grid9_inRange)
      from iv ok have "isValid board row col num = Inr True" by simp
      note unf = tryNums_valid [OF le this]
      from "2.IH"(1) [OF le iv okT g1 d1 c1]
      show ?thesis
      proof (elim disjE exE conjE)
        fix s assume s1: "solveSudoku ?b1 = Inr (True, s)" and s2: "completion ?b1 s"
        from s1 have "tryNums board row col num = Inr (True, s)"
          by (simp add: unf)
        moreover from s2 have "completion board s"
          by (simp add: completion_place [OF g pos e])
        ultimately show ?thesis by blast
      next
        assume f1: "solveSudoku ?b1 = Inr (False, ?b1)" and a1: "\<forall>s. \<not> completion ?b1 s"
        from f1 undo
        have t: "tryNums board row col num = tryNums board row col (num + 1)"
          by (simp add: unf)
        have nn: "v \<noteq> num" if "completion board s" "s ! row ! col = Some v" for s v
        proof
          assume "v = num"
          with that have "completion ?b1 s" by (simp add: completion_place [OF g pos e])
          with a1 show False by blast
        qed
        have ih: "(\<exists>s. tryNums board row col (num + 1) = Inr (True, s) \<and> completion board s)
                  \<or> (tryNums board row col (num + 1) = Inr (False, board)
                      \<and> (\<forall>s v. completion board s \<longrightarrow> s ! row ! col = Some v \<longrightarrow> v < num + 1))"
          using "2.IH"(2) [OF le iv okT f1 refl refl] g d c pos e n2 unfolding undo by blast
        then show ?thesis
        proof (elim disjE exE conjE)
          fix s assume "tryNums board row col (num + 1) = Inr (True, s)" "completion board s"
          with t show ?thesis by auto
        next
          assume f: "tryNums board row col (num + 1) = Inr (False, board)"
            and a: "\<forall>s v. completion board s \<longrightarrow> s ! row ! col = Some v \<longrightarrow> v < num + 1"
          have "v < num" if "completion board s" "s ! row ! col = Some v" for s v
          proof -
            from a that have "v < num + 1" by blast
            with nn [OF that] show ?thesis by simp
          qed
          with f t show ?thesis by simp
        qed
      qed
    qed
  qed
qed

section \<open>Correctness of the counter\<close>

lemma solveNums_done: "\<not> num \<le> 9 \<Longrightarrow> solveNums count b row col num = Inr (count, b)"
  by (subst solveNums.simps) simp

lemma solveNums_invalid:
  "num \<le> 9 \<Longrightarrow> isValid b row col num = Inr False \<Longrightarrow>
   solveNums count b row col num = solveNums count b row col (num + 1)"
  by (subst solveNums.simps) simp

lemma solveNums_valid:
  "num \<le> 9 \<Longrightarrow> isValid b row col num = Inr True \<Longrightarrow>
   solveNums count b row col num =
     (case solve count (setCell b row col (Some num)) of
        Inl e \<Rightarrow> Inl e
      | Inr (count', b') \<Rightarrow>
          if count' > 1 then Inr (count', setCell b' row col None)
          else solveNums count' (setCell b' row col None) row col (num + 1))"
  by (subst solveNums.simps) simp

lemma finite_completions: "finite {s. completion board s}"
proof -
  let ?rows = "{row. set row \<subseteq> Some ` {1..9::nat} \<and> length row = 9}"
  have "finite ?rows" by (intro finite_lists_length_eq) simp
  then have fin: "finite {s. set s \<subseteq> ?rows \<and> length s = 9}" by (rule finite_lists_length_eq)
  have "{s. completion board s} \<subseteq> {s. set s \<subseteq> ?rows \<and> length s = 9}"
  proof
    fix s assume "s \<in> {s. completion board s}"
    then have "validSolution s" by (simp add: completion_def)
    then have g: "grid9 s" and d: "\<forall>p \<in> positions. cellOf s p \<in> Some ` {1..9}"
      unfolding validSolution_iff by simp_all
    from d have "\<forall>row \<in> set s. \<forall>v \<in> set row. v \<in> Some ` {1..9}"
      by (simp only: all_cells_iff [OF g])
    with g show "s \<in> {s. set s \<subseteq> ?rows \<and> length s = 9}"
      by (auto simp: grid9_def)
  qed
  with fin show ?thesis by (rule rev_finite_subset)
qed

lemma completion_full:
  assumes g: "grid9 board" and full: "\<forall>p \<in> positions. cellOf board p \<noteq> None"
    and c: "completion board s"
  shows "s = board"
proof (rule grid9_eqI)
  show "grid9 s" using c by (simp add: completion_def validSolution_def)
  show "grid9 board" by (rule g)
next
  fix r c' :: nat assume "r < 9" "c' < 9"
  then have p: "(r, c') \<in> positions" by simp
  with full have ne: "cellOf board (r, c') \<noteq> None" by blast
  from c have "agrees board s" by (simp add: completion_def)
  with p ne have "cellOf board (r, c') = cellOf s (r, c')"
    unfolding agrees_iff by (auto simp del: cellOf_simp positions_iff)
  then show "s ! r ! c' = board ! r ! c'" by simp
qed

lemma counter_correct:
  "grid9 b \<Longrightarrow> digits19 b \<Longrightarrow> consistent b \<Longrightarrow> count \<le> 1 \<Longrightarrow>
     solve count b = Inr (min 2 (count + card {s. completion b s}), b)"
  "grid9 b \<Longrightarrow> digits19 b \<Longrightarrow> consistent b \<Longrightarrow>
   (row, col) \<in> positions \<Longrightarrow> cellOf b (row, col) = None \<Longrightarrow> 1 \<le> num \<Longrightarrow> count \<le> 1 \<Longrightarrow>
     solveNums count b row col num
       = Inr (min 2 (count + card {s. completion b s \<and> (\<exists>v\<ge>num. s ! row ! col = Some v)}), b)"
proof (induction count b and count b row col num rule: solve_solveNums.induct)
  case (1 count b)
  note g = \<open>grid9 b\<close>
  show ?case
  proof (cases "find (\<lambda>p. cellOf b p = None) cells")
    case None
    then have full: "\<forall>p \<in> positions. cellOf b p \<noteq> None"
      unfolding find_None_iff set_cells by (auto simp del: cellOf_simp positions_iff)
    have "completion b b"
      using full_valid [OF g "1.prems"(2,3) full] by (simp add: completion_def agrees_refl)
    with completion_full [OF g full] have "{s. completion b s} = {b}" by blast
    then have "card {s. completion b s} = 1" by simp
    moreover from None g have "solve count b = Inr (count + 1, b)"
      by (simp add: solve.simps findEmpty_cells)
    ultimately show ?thesis using \<open>count \<le> 1\<close> by simp
  next
    case (Some p)
    obtain row col where p: "p = (row, col)" by (cases p)
    from find_SomeD [OF Some] have pos: "(row, col) \<in> positions"
      and e: "cellOf b (row, col) = None"
      unfolding p set_cells by blast+
    from Some g have f: "findEmpty b cells = Inr (Some (row, col))"
      by (simp add: findEmpty_cells p)
    then have s: "solve count b = solveNums count b row col 1"
      by (simp add: solve.simps)
    have one: "(1::nat) \<le> 1" by simp
    have "{s. completion b s \<and> (\<exists>v\<ge>1. s ! row ! col = Some v)} = {s. completion b s}"
      using completion_digit [OF _ pos] by blast
    with "1.IH" [OF f refl refl g "1.prems"(2,3) pos e one "1.prems"(4)] s
    show ?thesis by simp
  qed
next
  case (2 count b row col num)
  note g = \<open>grid9 b\<close> and d = \<open>digits19 b\<close> and c = \<open>consistent b\<close>
    and pos = \<open>(row, col) \<in> positions\<close> and e = \<open>cellOf b (row, col) = None\<close>
    and n1 = \<open>1 \<le> num\<close> and c1 = \<open>count \<le> 1\<close>
  from pos have rc: "row < 9" "col < 9" by simp_all
  from n1 have n2: "1 \<le> num + 1" by simp
  let ?S = "\<lambda>n. {s. completion b s \<and> (\<exists>v\<ge>n. s ! row ! col = Some v)}"
  let ?A = "{s. completion b s \<and> s ! row ! col = Some num}"
  have split: "?S num = ?A \<union> ?S (num + 1)"
  proof -
    have "(\<exists>v\<ge>num. x = Some v) \<longleftrightarrow> x = Some num \<or> (\<exists>v\<ge>num + 1. x = Some v)" for x :: "nat option"
      by (cases x) auto
    then show ?thesis by blast
  qed
  have disj: "?A \<inter> ?S (num + 1) = {}" by auto
  have fin: "finite ?A" "finite (?S (num + 1))"
    using finite_completions [of b] by simp_all
  have card: "card (?S num) = card ?A + card (?S (num + 1))"
    unfolding split by (rule card_Un_disjoint [OF fin disj])
  show ?case
  proof (cases "num \<le> 9")
    case False
    have "?S num = {}"
    proof -
      have "\<not> (completion b s \<and> (\<exists>v\<ge>num. s ! row ! col = Some v))" for s
      proof
        assume a: "completion b s \<and> (\<exists>v\<ge>num. s ! row ! col = Some v)"
        from completion_digit [OF conjunct1 [OF a] pos] obtain w where "s ! row ! col = Some w" "w \<le> 9"
          by blast
        with a False show False by auto
      qed
      then show ?thesis by blast
    qed
    then have "card (?S num) = 0" by (simp only: card.empty)
    with c1 have "min 2 (count + card (?S num)) = count" by simp
    with solveNums_done [OF False, of count b row col] show ?thesis by (simp only:)
  next
    case le: True
    let ?ok = "\<not> (\<exists>q \<in> positions. peer (row, col) q \<and> cellOf b q = Some num)"
    have iv: "isValid b row col num = Inr ?ok"
      by (rule isValid_peer [OF g rc])
    show ?thesis
    proof (cases ?ok)
      case False
      with iv have ivF: "isValid b row col num = Inr False" by simp
      from False have okF: "?ok = False" by simp
      have "?A = {}"
      proof -
        have "\<not> (completion b s \<and> s ! row ! col = Some num)" for s
        proof
          assume a: "completion b s \<and> s ! row ! col = Some num"
          then have "cellOf s (row, col) = Some num" by simp
          from completion_value_ok [OF conjunct1 [OF a] pos e this] False show False by simp
        qed
        then show ?thesis by blast
      qed
      with card have "card (?S num) = card (?S (num + 1))" by simp
      with "2.IH"(3) [OF le iv okF g d c pos e n2 c1] solveNums_invalid [OF le ivF]
      show ?thesis by simp
    next
      case ok: True
      then have okT: "?ok = True" by simp
      from iv ok have ivT: "isValid b row col num = Inr True" by simp
      let ?b1 = "setCell b row col (Some num)"
      have g1: "grid9 ?b1" using g by simp
      have d1: "digits19 ?b1" by (rule digits19_place [OF g d n1 le])
      have cs1: "consistent ?b1" by (rule consistent_place [OF g pos c ok])
      have undo: "setCell ?b1 row col None = b"
        using g rc e by (simp add: setCell_same grid9_inRange)
      have A: "{s. completion ?b1 s} = ?A"
        using completion_place [OF g pos e, of num] by simp
      let ?c1 = "min 2 (count + card ?A)"
      from "2.IH"(1) [OF le iv okT g1 d1 cs1 c1]
      have s1: "solve count ?b1 = Inr (?c1, ?b1)" by (simp only: A)
      show ?thesis
      proof (cases "?c1 > 1")
        case True
        with s1 undo have "solveNums count b row col num = Inr (?c1, b)"
          by (simp add: solveNums_valid [OF le ivT])
        moreover from True card have "min 2 (count + card (?S num)) = ?c1" by simp
        ultimately show ?thesis by simp
      next
        case False
        then have c1': "?c1 \<le> 1" by simp
        from False s1 undo
        have t: "solveNums count b row col num = solveNums ?c1 b row col (num + 1)"
          by (simp add: solveNums_valid [OF le ivT])
        have "solveNums ?c1 b row col (num + 1)
                = Inr (min 2 (?c1 + card (?S (num + 1))), b)"
          using "2.IH"(2) [OF le iv okT s1 refl False] g d c pos e n2 c1' unfolding undo
          by blast
        moreover from False card have "min 2 (?c1 + card (?S (num + 1))) = min 2 (count + card (?S num))"
          by simp
        ultimately show ?thesis using t by simp
      qed
    qed
  qed
qed

text \<open>On a 9x9 board the counter reads no missing row: it returns a count, and the board.\<close>

lemma solve_no_error:
  "grid9 b \<Longrightarrow> \<exists>n. solve count b = Inr (n, b)"
  "grid9 b \<Longrightarrow> row < 9 \<Longrightarrow> col < 9 \<Longrightarrow> \<exists>n b'. solveNums count b row col num = Inr (n, b')"
proof (induction count b and count b row col num rule: solve_solveNums.induct)
  case (1 count b)
  note g = \<open>grid9 b\<close>
  show ?case
  proof (cases "find (\<lambda>p. cellOf b p = None) cells")
    case None
    with g show ?thesis by (simp add: solve.simps findEmpty_cells)
  next
    case (Some p)
    obtain row col where p: "p = (row, col)" by (cases p)
    from find_SomeD [OF Some] have pos: "(row, col) \<in> positions"
      unfolding p set_cells by blast
    then have rc: "row < 9" "col < 9" by simp_all
    from Some g have f: "findEmpty b cells = Inr (Some (row, col))"
      by (simp add: findEmpty_cells p)
    then have s: "solve count b = solveNums count b row col 1"
      by (simp add: solve.simps)
    from "1.IH" [OF f refl refl g rc] obtain n b' where
      r: "solveNums count b row col 1 = Inr (n, b')" by blast
    with s have "solve count b = Inr (n, b')" by simp
    with solve_restores [OF this] show ?thesis by simp
  qed
next
  case (2 count b row col num)
  note g = \<open>grid9 b\<close> and rc = \<open>row < 9\<close> \<open>col < 9\<close>
  show ?case
  proof (cases "num \<le> 9")
    case False
    then show ?thesis by (simp add: solveNums_done)
  next
    case le: True
    let ?ok = "\<not> (inRow b row num \<or> inCol b col num \<or> inBox b row col num)"
    have v: "isValid b row col num = Inr ?ok" by (rule isValid_grid9 [OF g rc])
    show ?thesis
    proof (cases ?ok)
      case False
      with v have vF: "isValid b row col num = Inr False" by simp
      from False have okF: "?ok = False" by simp
      from "2.IH"(3) [OF le v okF g rc] solveNums_invalid [OF le vF, of count]
      show ?thesis by simp
    next
      case True
      with v have vT: "isValid b row col num = Inr True" by simp
      from True have okT: "?ok = True" by simp
      let ?b1 = "setCell b row col (Some num)"
      have g1: "grid9 ?b1" using g by simp
      from "2.IH"(1) [OF le v okT g1] obtain k where
        k: "solve count ?b1 = Inr (k, ?b1)" by blast
      note step = solveNums_valid [OF le vT, of count]
      show ?thesis
      proof (cases "k > 1")
        case True
        with step k show ?thesis by simp
      next
        case False
        have g2: "grid9 (setCell ?b1 row col None)" using g by simp
        from "2.IH"(2) [OF le v okT k refl False g2 rc] step k False
        show ?thesis by simp
      qed
    qed
  qed
qed

lemma countSolutions_grid9: "grid9 board \<Longrightarrow> \<exists>n. countSolutions board = Inr (n, board)"
  by (simp add: countSolutions_def solve_no_error(1))

section \<open>The solver returns the first completion in row-major order\<close>

lemma completion_agree_filled:
  assumes "completion board s" "completion board t" "p \<in> positions" "cellOf board p \<noteq> None"
  shows "cellOf s p = cellOf t p"
proof -
  from assms(1,2) have "agrees board s" "agrees board t" by (simp_all add: completion_def)
  with assms(3,4) have "cellOf board p = cellOf s p" "cellOf board p = cellOf t p"
    unfolding agrees_iff by (auto simp del: cellOf_simp positions_iff)
  then show ?thesis by simp
qed

lemma find_Some_index:
  "find P xs = Some x \<Longrightarrow> \<exists>k<length xs. xs ! k = x \<and> (\<forall>j<k. \<not> P (xs ! j))"
  by (auto simp: find_Some_iff)

lemma solver_least:
  "grid9 board \<Longrightarrow> digits19 board \<Longrightarrow> consistent board \<Longrightarrow>
   solveSudoku board = Inr (True, s) \<Longrightarrow> completion board t \<Longrightarrow> precedes s t"
  "grid9 board \<Longrightarrow> digits19 board \<Longrightarrow> consistent board \<Longrightarrow>
   (row, col) \<in> positions \<Longrightarrow> cellOf board (row, col) = None \<Longrightarrow>
   k < length cells \<Longrightarrow> cells ! k = (row, col) \<Longrightarrow>
   \<forall>j<k. cellOf board (cells ! j) \<noteq> None \<Longrightarrow> 1 \<le> num \<Longrightarrow>
   tryNums board row col num = Inr (True, s) \<Longrightarrow> completion board t \<Longrightarrow>
   t ! row ! col = Some v \<Longrightarrow> num \<le> v \<Longrightarrow> precedes s t"
proof (induction board and board row col num arbitrary: s t and s t v k
       rule: solveSudoku_tryNums.induct)
  case (1 board)
  note g = \<open>grid9 board\<close> and d = \<open>digits19 board\<close> and c = \<open>consistent board\<close>
    and sol = \<open>solveSudoku board = Inr (True, s)\<close> and ct = \<open>completion board t\<close>
  show ?case
  proof (cases "find (\<lambda>p. cellOf board p = None) cells")
    case None
    then have full: "\<forall>p \<in> positions. cellOf board p \<noteq> None"
      unfolding find_None_iff set_cells by (auto simp del: cellOf_simp positions_iff)
    from None g have "solveSudoku board = Inr (True, board)"
      by (simp add: solveSudoku.simps findEmpty_cells)
    with sol have "s = board" by simp
    moreover from completion_full [OF g full ct] have "t = board" .
    ultimately show ?thesis by (simp add: precedes_def)
  next
    case (Some p)
    obtain row col where p: "p = (row, col)" by (cases p)
    from find_Some_index [OF Some] obtain k where k: "k < length cells" "cells ! k = (row, col)"
      "\<forall>j<k. cellOf board (cells ! j) \<noteq> None"
      unfolding p by (elim exE conjE)
    from find_SomeD [OF Some] have pos: "(row, col) \<in> positions"
      and e: "cellOf board (row, col) = None"
      unfolding p set_cells by blast+
    from Some g have f: "findEmpty board cells = Inr (Some (row, col))"
      by (simp add: findEmpty_cells p)
    then have "solveSudoku board = tryNums board row col 1"
      by (simp add: solveSudoku.simps)
    with sol have tr: "tryNums board row col 1 = Inr (True, s)" by simp
    from completion_digit [OF ct pos] obtain v where v: "t ! row ! col = Some v" "1 \<le> v"
      by blast
    have one: "(1::nat) \<le> 1" by simp
    from "1.IH" [OF f refl refl g d c pos e k one tr ct v] show ?thesis .
  qed
next
  case (2 board row col num)
  note g = \<open>grid9 board\<close> and d = \<open>digits19 board\<close> and c = \<open>consistent board\<close>
    and pos = \<open>(row, col) \<in> positions\<close> and e = \<open>cellOf board (row, col) = None\<close>
    and k = \<open>k < length cells\<close> \<open>cells ! k = (row, col)\<close>
            \<open>\<forall>j<k. cellOf board (cells ! j) \<noteq> None\<close>
    and n1 = \<open>1 \<le> num\<close> and tr = \<open>tryNums board row col num = Inr (True, s)\<close>
    and ct = \<open>completion board t\<close> and tv = \<open>t ! row ! col = Some v\<close> and nv = \<open>num \<le> v\<close>
  from pos have rc: "row < 9" "col < 9" by simp_all
  from n1 have n2: "1 \<le> num + 1" by simp
  have le: "num \<le> 9"
  proof (rule ccontr)
    assume "\<not> num \<le> 9"
    from tryNums_done [OF this, of board row col] tr show False by simp
  qed
  let ?ok = "\<not> (\<exists>q \<in> positions. peer (row, col) q \<and> cellOf board q = Some num)"
  have iv: "isValid board row col num = Inr ?ok"
    by (rule isValid_peer [OF g rc])
  from tv have ctv: "cellOf t (row, col) = Some v" by simp
  show ?case
  proof (cases ?ok)
    case False
    with iv have "isValid board row col num = Inr False" by simp
    from tryNums_invalid [OF le this] tr
    have tr': "tryNums board row col (num + 1) = Inr (True, s)" by simp
    have "v \<noteq> num"
    proof
      assume "v = num"
      with ctv have "cellOf t (row, col) = Some num" by simp
      from completion_value_ok [OF ct pos e this] False show False by simp
    qed
    with nv have nv': "num + 1 \<le> v" by simp
    from False have okF: "?ok = False" by simp
    from "2.IH"(3) [OF le iv okF g d c pos e k n2 tr' ct tv nv'] show ?thesis .
  next
    case ok: True
    then have okT: "?ok = True" by simp
    from iv ok have ivT: "isValid board row col num = Inr True" by simp
    let ?b1 = "setCell board row col (Some num)"
    have g1: "grid9 ?b1" using g by simp
    have d1: "digits19 ?b1" by (rule digits19_place [OF g d n1 le])
    have c1: "consistent ?b1" by (rule consistent_place [OF g pos c ok])
    have undo: "setCell ?b1 row col None = board"
      using g rc e by (simp add: setCell_same grid9_inRange)
    note unf = tryNums_valid [OF le ivT]
    from solver_correct(1) [OF g1 d1 c1]
    show ?thesis
    proof (elim disjE exE conjE)
      fix s1 assume s1: "solveSudoku ?b1 = Inr (True, s1)" and cs1: "completion ?b1 s1"
      from s1 tr have ss: "s1 = s" by (simp add: unf)
      from cs1 have cs: "completion board s" and sv: "cellOf s (row, col) = Some num"
        unfolding ss by (simp_all add: completion_place [OF g pos e])
      show ?thesis
      proof (cases "v = num")
        case True
        with ct ctv have "completion ?b1 t" by (simp add: completion_place [OF g pos e])
        from "2.IH"(1) [OF le iv okT g1 d1 c1 s1 this] show ?thesis by (simp only: ss)
      next
        case False
        with nv have lt: "num < v" by simp
        have "\<forall>j<k. cellOf s (cells ! j) = cellOf t (cells ! j)"
        proof (intro allI impI)
          fix j assume j: "j < k"
          with k(1) have "cells ! j \<in> set cells" by simp
          then have "cells ! j \<in> positions" by (simp only: set_cells)
          moreover from k(3) j have "cellOf board (cells ! j) \<noteq> None" by simp
          ultimately show "cellOf s (cells ! j) = cellOf t (cells ! j)"
            by (rule completion_agree_filled [OF cs ct])
        qed
        moreover from sv ctv lt
        have "\<exists>a b. cellOf s (cells ! k) = Some a \<and> cellOf t (cells ! k) = Some b \<and> a < b"
          unfolding k(2) by (intro exI [of _ num] exI [of _ v]) (simp del: cellOf_simp)
        ultimately have "\<exists>k<length cells.
            (\<forall>j<k. cellOf s (cells ! j) = cellOf t (cells ! j)) \<and>
            (\<exists>a b. cellOf s (cells ! k) = Some a \<and> cellOf t (cells ! k) = Some b \<and> a < b)"
          using k(1) by (intro exI [of _ k]) simp
        then show ?thesis unfolding precedes_def by (rule disjI2)
      qed
    next
      assume f1: "solveSudoku ?b1 = Inr (False, ?b1)" and none: "\<forall>x. \<not> completion ?b1 x"
      from f1 undo tr have tr': "tryNums board row col (num + 1) = Inr (True, s)"
        by (simp add: unf)
      have "v \<noteq> num"
      proof
        assume "v = num"
        with ct ctv have "completion ?b1 t" by (simp add: completion_place [OF g pos e])
        with none show False by blast
      qed
      with nv have nv': "num + 1 \<le> v" by simp
      note ih = "2.IH"(2) [OF le iv okT f1 refl refl, unfolded undo]
      from ih [OF g d c pos e k n2 tr' ct tv nv'] show ?thesis .
    qed
  qed
qed

lemma concat_upt_nth:
  "i < m \<Longrightarrow> j < n \<Longrightarrow>
   length (concat (map (\<lambda>a. map (f a) [0..<n]) [0..<m])) = m * n
   \<and> concat (map (\<lambda>a. map (f a) [0..<n]) [0..<m]) ! (n * i + j) = f i j"
proof (induction m arbitrary: i)
  case 0
  then show ?case by simp
next
  case (Suc m)
  have len: "length (concat (map (\<lambda>a. map (f a) [0..<n]) [0..<m])) = m * n"
    by (induction m) simp_all
  show ?case
  proof (cases "i < m")
    case True
    from Suc.IH [OF True Suc.prems(2)] have "n * i + j < m * n"
    proof -
      from True have "Suc i \<le> m" by simp
      then have "n * Suc i \<le> n * m" by (rule mult_le_mono2)
      with Suc.prems(2) show ?thesis by (simp add: mult.commute)
    qed
    with Suc.IH [OF True Suc.prems(2)] len show ?thesis by (simp add: nth_append)
  next
    case False
    with Suc.prems(1) have "i = m" by simp
    with len Suc.prems(2) show ?thesis by (simp add: nth_append mult.commute)
  qed
qed

lemma cells_row_major: "r < 9 \<Longrightarrow> c < 9 \<Longrightarrow> cells ! (9 * r + c) = (r, c)"
  using concat_upt_nth [of r 9 c 9 Pair] by (simp add: cells_def)

lemma length_cells: "length cells = 81"
  using concat_upt_nth [of 0 9 0 9 Pair] by (simp add: cells_def)

section \<open>Counting filled cells\<close>

lemma filled_plus_empty: "length (filter (\<lambda>v. v \<noteq> None) row) + count_list row None = length row"
  by (induction row) auto

lemma filledCount_empties: "filledCount board + empties board = (\<Sum>row\<leftarrow>board. length row)"
proof -
  have "filledCount board + empties board
          = (\<Sum>row\<leftarrow>board. length (filter (\<lambda>v. v \<noteq> None) row) + count_list row None)"
    by (simp add: filledCount_def empties_def sum_list_addf)
  then show ?thesis by (simp only: filled_plus_empty)
qed

lemma sum_list_const: "(\<forall>x \<in> set xs. f x = (k::nat)) \<Longrightarrow> sum_list (map f xs) = length xs * k"
  by (induction xs) auto

lemma filledCount_grid9: "grid9 board \<Longrightarrow> filledCount board + empties board = 81"
  using sum_list_const [of board length 9] by (simp add: filledCount_empties grid9_def)

lemma filledCount_clear:
  assumes "grid9 board" "r < 9" "c < 9" "board ! r ! c \<noteq> None"
  shows "filledCount (setCell board r c None) + 1 = filledCount board"
proof -
  have "empties (setCell board r c None) = empties board + 1"
    using empties_setCell [OF grid9_inRange [OF assms(1-3)], of None] assms(4) by simp
  moreover have "filledCount (setCell board r c None) + empties (setCell board r c None) = 81"
    using assms(1) by (simp add: filledCount_grid9)
  moreover have "filledCount board + empties board = 81"
    using assms(1) by (rule filledCount_grid9)
  ultimately show ?thesis by simp
qed

lemma filledCount_place:
  assumes "grid9 board" "r < 9" "c < 9"
  shows "filledCount (setCell board r c (Some n)) \<le> filledCount board + 1"
proof -
  have "empties board \<le> empties (setCell board r c (Some n)) + 1"
    using empties_setCell [OF grid9_inRange [OF assms], of "Some n"] by (simp split: if_splits)
  moreover have "filledCount (setCell board r c (Some n)) + empties (setCell board r c (Some n)) = 81"
    using assms(1) by (simp add: filledCount_grid9)
  moreover have "filledCount board + empties board = 81"
    using assms(1) by (rule filledCount_grid9)
  ultimately show ?thesis by simp
qed

lemma empties_full:
  assumes "grid9 board" "\<forall>p \<in> positions. cellOf board p \<noteq> None"
  shows "empties board = 0"
proof -
  from assms have "\<forall>row \<in> set board. \<forall>v \<in> set row. v \<noteq> None"
    by (simp only: all_cells_iff [OF assms(1)])
  then have "\<forall>row \<in> set board. count_list row None = 0"
    by (auto simp: count_list_0_iff)
  then show ?thesis by (simp add: empties_def)
qed

lemma filledCount_solution: "validSolution s \<Longrightarrow> filledCount s = 81"
proof -
  assume v: "validSolution s"
  then have g: "grid9 s" and "\<forall>p \<in> positions. cellOf s p \<in> Some ` {1..9}"
    unfolding validSolution_iff by simp_all
  then have "\<forall>p \<in> positions. cellOf s p \<noteq> None" by (auto simp del: cellOf_simp positions_iff)
  from empties_full [OF g this] filledCount_grid9 [OF g] show ?thesis by simp
qed

lemma filledCount_empty_board: "filledCount (replicate 9 (replicate 9 None)) = 0"
  by (simp add: filledCount_def)

section \<open>Seeding the diagonal boxes\<close>

lemma pickNum_valid:
  "pickNum rnd board row col = Some (Inr (num, rnd')) \<Longrightarrow>
   isValid board row col num = Inr True \<and> 1 \<le> num \<and> num \<le> 9"
proof (induction rnd)
  case Nil
  then show ?case by simp
next
  case (Cons d rnd)
  have "d mod 9 + 1 \<le> 9" using mod_less_divisor [of 9 d] by simp
  with Cons show ?case
    by (auto simp: Let_def split: sum.splits bool.splits)
qed

lemma fillDiagonal_inv:
  "fillDiagonal rnd board ps = Some (Inr (board', rnd')) \<Longrightarrow> set ps \<subseteq> positions \<Longrightarrow>
   seedInv board \<Longrightarrow>
   seedInv board' \<and> filledCount board' \<le> filledCount board + length ps"
proof (induction rnd board ps arbitrary: board' rnd' rule: fillDiagonal.induct)
  case (1 rnd board)
  then show ?case by simp
next
  case (2 rnd board row col ps)
  from "2.prems"(1) obtain num rnd1 where
    pk: "pickNum rnd board row col = Some (Inr (num, rnd1))" and
    rest: "fillDiagonal rnd1 (setCell board row col (Some num)) ps = Some (Inr (board', rnd'))"
    by (auto split: option.splits sum.splits)
  from "2.prems"(2) have pos: "(row, col) \<in> positions" and sub: "set ps \<subseteq> positions" by auto
  then have rc: "row < 9" "col < 9" by simp_all
  from "2.prems"(3) have g: "grid9 board" and d: "digits19 board" and c: "consistent board"
    by (simp_all add: seedInv_def)
  from pickNum_valid [OF pk] have iv: "isValid board row col num = Inr True"
    and n: "1 \<le> num" "num \<le> 9" by simp_all
  from iv isValid_peer [OF g rc, of num]
  have ok: "\<not> (\<exists>q \<in> positions. peer (row, col) q \<and> cellOf board q = Some num)" by simp
  have inv1: "seedInv (setCell board row col (Some num))"
    using g digits19_place [OF g d n] consistent_place [OF g pos c ok] by (simp add: seedInv_def)
  from "2.IH" [OF pk refl refl rest sub inv1] filledCount_place [OF g rc, of num]
  show ?case by simp
qed

lemma seedInv_empty_board: "seedInv (replicate 9 (replicate 9 None))"
proof -
  let ?b = "replicate 9 (replicate 9 (None :: cell))"
  have g: "grid9 ?b" by (simp add: grid9_def)
  have e: "cellOf ?b p = None" if "p \<in> positions" for p
    using that by (cases p) simp
  from e have "digits19 ?b" by (simp add: digits19_iff [OF g])
  moreover from e have "consistent ?b" by (simp add: consistent_def)
  ultimately show ?thesis using g by (simp add: seedInv_def)
qed

lemma diagCells_positions: "set diagCells \<subseteq> positions"
  by (simp add: diagCells_def upt_3)

lemma length_diagCells: "length diagCells = 27"
  by (simp add: diagCells_def upt_3)

section \<open>The removal loop\<close>

lemma removeCells_exit:
  "\<not> attempts < target \<Longrightarrow> removeCells rnd puzzle attempts target = Some (Inr puzzle)"
  by (subst removeCells.simps) simp

lemma removeCells_nil: "attempts < target \<Longrightarrow> removeCells [] puzzle attempts target = None"
  by (subst removeCells.simps) simp

lemma removeCells_single: "attempts < target \<Longrightarrow> removeCells [d] puzzle attempts target = None"
  by (subst removeCells.simps) simp

lemma removeCells_step:
  "attempts < target \<Longrightarrow>
   removeCells (d1 # d2 # rnd) puzzle attempts target =
     (if puzzle ! (d1 mod 9) ! (d2 mod 9) \<noteq> None then
        (case countSolutions (setCell puzzle (d1 mod 9) (d2 mod 9) None) of
           Inl e \<Rightarrow> Some (Inl e)
         | Inr (n, _) \<Rightarrow>
             if n \<noteq> 1
             then removeCells rnd
                    (setCell (setCell puzzle (d1 mod 9) (d2 mod 9) None) (d1 mod 9) (d2 mod 9)
                       (puzzle ! (d1 mod 9) ! (d2 mod 9)))
                    attempts target
             else removeCells rnd (setCell puzzle (d1 mod 9) (d2 mod 9) None) (attempts + 1) target)
      else removeCells rnd puzzle attempts target)"
  by (subst removeCells.simps) (simp add: Let_def)

lemma removeCells_invariant:
  assumes res: "removeCells rnd puzzle attempts target = Some (Inr puzzle')"
    and init: "I puzzle attempts"
    and shape: "\<And>p a. I p a \<Longrightarrow> grid9 p"
    and keep: "\<And>p a r c x. I p a \<Longrightarrow> a < target \<Longrightarrow> r < 9 \<Longrightarrow> c < 9 \<Longrightarrow> p ! r ! c \<noteq> None \<Longrightarrow>
                 countSolutions (setCell p r c None) = Inr (1, x) \<Longrightarrow>
                 I (setCell p r c None) (a + 1)"
  shows "\<exists>a. I puzzle' a \<and> \<not> a < target"
  using res init
proof (induction rnd arbitrary: puzzle attempts rule: induct_list012)
  case 1
  then show ?case by (cases "attempts < target") (auto simp: removeCells_nil removeCells_exit)
next
  case (2 d)
  then show ?case by (cases "attempts < target") (auto simp: removeCells_single removeCells_exit)
next
  case (3 d1 d2 rnd)
  show ?case
  proof (cases "attempts < target")
    case False
    with "3.prems" show ?thesis by (auto simp: removeCells_exit)
  next
    case lt: True
    let ?r = "d1 mod 9" and ?c = "d2 mod 9"
    have rc: "?r < 9" "?c < 9" by simp_all
    note step = removeCells_step [OF lt, of d1 d2 rnd puzzle]
    show ?thesis
    proof (cases "puzzle ! ?r ! ?c \<noteq> None")
      case False
      with step "3.prems"(1) have "removeCells rnd puzzle attempts target = Some (Inr puzzle')"
        by simp
      from "3.IH"(1) [OF this "3.prems"(2)] show ?thesis .
    next
      case filled: True
      let ?p1 = "setCell puzzle ?r ?c None"
      from filled step "3.prems"(1) obtain n x where
        cnt: "countSolutions ?p1 = Inr (n, x)"
        by (cases "countSolutions ?p1") auto
      have undo: "setCell ?p1 ?r ?c (puzzle ! ?r ! ?c) = puzzle"
        using shape [OF "3.prems"(2)] rc by (simp add: setCell_same grid9_inRange)
      show ?thesis
      proof (cases "n = 1")
        case True
        with filled step cnt "3.prems"(1)
        have "removeCells rnd ?p1 (attempts + 1) target = Some (Inr puzzle')" by simp
        moreover from True cnt have "countSolutions ?p1 = Inr (1, x)" by simp
        from keep [OF "3.prems"(2) lt rc filled this] have "I ?p1 (attempts + 1)" .
        ultimately show ?thesis by (rule "3.IH"(1))
      next
        case False
        with filled step cnt "3.prems"(1) undo
        have "removeCells rnd puzzle attempts target = Some (Inr puzzle')" by simp
        from "3.IH"(1) [OF this "3.prems"(2)] show ?thesis .
      qed
    qed
  qed
qed

lemma agrees_clear:
  assumes "grid9 p" "agrees p s"
  shows "agrees (setCell p r c None) s"
  using assms unfolding agrees_iff by (auto simp: cellOf_setCell simp del: cellOf_simp positions_iff)

lemma agrees_wellformed:
  assumes g: "grid9 p" and a: "agrees p s" and v: "validSolution s"
  shows "digits19 p" "consistent p"
proof -
  from v have d: "\<forall>q \<in> positions. cellOf s q \<in> Some ` {1..9}" and c: "consistent s"
    unfolding validSolution_iff by simp_all
  have eq: "cellOf p q = cellOf s q" if "q \<in> positions" "cellOf p q \<noteq> None" for q
    using a that unfolding agrees_iff by (auto simp del: cellOf_simp positions_iff)
  show "digits19 p"
    unfolding digits19_iff [OF g]
  proof
    fix q assume q: "q \<in> positions"
    show "cellOf p q = None \<or> cellOf p q \<in> Some ` {1..9}"
    proof (cases "cellOf p q = None")
      case True then show ?thesis by simp
    next
      case False
      from eq [OF q False] d q show ?thesis by (auto simp del: cellOf_simp positions_iff)
    qed
  qed
  show "consistent p"
    unfolding consistent_def
  proof (intro ballI impI)
    fix x y assume xy: "x \<in> positions" "y \<in> positions" "x \<noteq> y" "peer x y" "cellOf p x \<noteq> None"
    show "cellOf p x \<noteq> cellOf p y"
    proof (cases "cellOf p y = None")
      case True with xy(5) show ?thesis by simp
    next
      case False
      from d xy(1) have "cellOf s x \<noteq> None" by (auto simp del: cellOf_simp positions_iff)
      with c xy(1-4) have "cellOf s x \<noteq> cellOf s y" unfolding consistent_def by blast
      with eq [OF xy(1) xy(5)] eq [OF xy(2) False] show ?thesis by simp
    qed
  qed
qed

text \<open>One pass of the loop over a filled cell: the check runs on the copy, and the loop goes
  on with the puzzle with the cell cleared, or with the puzzle as it was.\<close>

lemma removeCells_check:
  assumes g: "grid9 puzzle" and lt: "attempts < target"
    and filled: "puzzle ! (d1 mod 9) ! (d2 mod 9) \<noteq> None"
  shows "\<exists>n. countSolutions (deepCopy (setCell puzzle (d1 mod 9) (d2 mod 9) None))
               = Inr (n, setCell puzzle (d1 mod 9) (d2 mod 9) None)
           \<and> removeCells (d1 # d2 # rnd) puzzle attempts target =
               (if n = 1
                then removeCells rnd (setCell puzzle (d1 mod 9) (d2 mod 9) None) (attempts + 1) target
                else removeCells rnd puzzle attempts target)"
proof -
  let ?r = "d1 mod 9" and ?c = "d2 mod 9"
  let ?p1 = "setCell puzzle ?r ?c None"
  have rc: "?r < 9" "?c < 9" by simp_all
  have "grid9 ?p1" using g by simp
  from countSolutions_grid9 [OF this] obtain n where n: "countSolutions ?p1 = Inr (n, ?p1)" ..
  have undo: "setCell ?p1 ?r ?c (puzzle ! ?r ! ?c) = puzzle"
    using g rc by (simp add: setCell_same grid9_inRange)
  have "removeCells (d1 # d2 # rnd) puzzle attempts target =
               (if n = 1 then removeCells rnd ?p1 (attempts + 1) target
                else removeCells rnd puzzle attempts target)"
    unfolding removeCells_step [OF lt, of d1 d2 rnd puzzle] using filled n undo by simp
  with n show ?thesis by auto
qed

section \<open>The generator\<close>

lemma cellsToRemove_ge: "35 \<le> cellsToRemove difficulty"
  by (cases difficulty) simp_all

lemma generateSudoku_parts:
  assumes "generateSudoku rnd difficulty = Some (Inr (p, s))"
  obtains board1 rnd1 ok where
    "fillDiagonal rnd (replicate 9 (replicate 9 None)) diagCells = Some (Inr (board1, rnd1))"
    "solveSudoku board1 = Inr (ok, s)"
    "removeCells rnd1 s 0 (cellsToRemove difficulty) = Some (Inr p)"
  using assms unfolding generateSudoku_def Let_def deepCopy_id
  by (auto split: option.splits sum.splits prod.splits)

lemma generateSudoku_facts:
  assumes gen: "generateSudoku rnd difficulty = Some (Inr (p, s))"
  shows "validSolution s" "grid9 p" "agrees p s" "filledCount p + cellsToRemove difficulty = 81"
proof -
  let ?t = "cellsToRemove difficulty"
  from generateSudoku_parts [OF gen] obtain board1 rnd1 ok where
    fill: "fillDiagonal rnd (replicate 9 (replicate 9 None)) diagCells = Some (Inr (board1, rnd1))"
    and sol: "solveSudoku board1 = Inr (ok, s)"
    and rem: "removeCells rnd1 s 0 ?t = Some (Inr p)"
    by blast
  from fillDiagonal_inv [OF fill diagCells_positions seedInv_empty_board]
  have inv: "seedInv board1" and cnt: "filledCount board1 \<le> 27"
    by (simp_all add: filledCount_empty_board length_diagCells)
  then have g1: "grid9 board1" and d1: "digits19 board1" and c1: "consistent board1"
    by (simp_all add: seedInv_def)
  from solver_correct(1) [OF g1 d1 c1] sol
  have alt: "(ok \<and> completion board1 s) \<or> (\<not> ok \<and> s = board1)" by auto
  then have gs: "grid9 s" using g1 by (auto simp: completion_def validSolution_def)
  let ?I = "\<lambda>q a. grid9 q \<and> agrees q s \<and> a \<le> ?t \<and> filledCount q + a = filledCount s"
  have "\<exists>a. ?I p a \<and> \<not> a < ?t"
  proof (rule removeCells_invariant [OF rem, of ?I])
    show "?I s 0" using gs by (simp add: agrees_refl)
  next
    fix q a assume "?I q a" then show "grid9 q" by simp
  next
    fix q a r c x
    assume "?I q a" "a < ?t" "r < 9" "c < 9" "q ! r ! c \<noteq> None"
    then show "?I (setCell q r c None) (a + 1)"
      using filledCount_clear [of q r c] by (simp add: agrees_clear)
  qed
  then have fin: "grid9 p" "agrees p s" "filledCount p + ?t = filledCount s" by auto
  have ok: "ok"
  proof (rule ccontr)
    assume "\<not> ok"
    with alt have "s = board1" by simp
    with fin(3) cnt cellsToRemove_ge [of difficulty] show False by simp
  qed
  with alt have "completion board1 s" by simp
  then show v: "validSolution s" by (simp add: completion_def)
  from fin show "grid9 p" "agrees p s" by simp_all
  from fin(3) filledCount_solution [OF v] show "filledCount p + ?t = 81" by simp
qed

lemma unique_from_count:
  assumes g1: "grid9 q" and a1: "agrees q s" and v: "validSolution s"
    and cnt: "countSolutions q = Inr (1, x)"
  shows "completion q y \<Longrightarrow> y = s"
proof -
  assume cy: "completion q y"
  have "solve 0 q = Inr (min 2 (0 + card {y. completion q y}), q)"
    by (rule counter_correct(1) [OF g1 agrees_wellformed [OF g1 a1 v]]) simp
  moreover from cnt have "solve 0 q = Inr (1, x)" by (simp only: countSolutions_def)
  ultimately have m: "min 2 (card {y. completion q y}) = 1" by simp
  have "card {y. completion q y} = 1"
  proof (cases "card {y. completion q y} \<le> 2")
    case True with m show ?thesis by (simp add: min_def split: if_splits)
  next
    case False with m show ?thesis by (simp add: min_def split: if_splits)
  qed
  then obtain z where z: "{y. completion q y} = {z}" by (rule card_1_singletonE)
  from a1 v have "completion q s" by (simp add: completion_def)
  with z have "s \<in> {z}" by (metis mem_Collect_eq)
  moreover from cy z have "y \<in> {z}" by (metis mem_Collect_eq)
  ultimately show "y = s" by simp
qed

lemma generateSudoku_unique:
  assumes gen: "generateSudoku rnd difficulty = Some (Inr (p, s))"
  shows "completion p x \<longleftrightarrow> x = s"
proof -
  let ?t = "cellsToRemove difficulty"
  note v = generateSudoku_facts(1) [OF gen]
  from v have gs: "grid9 s" by (simp add: validSolution_def)
  from v have full: "\<forall>q \<in> positions. cellOf s q \<noteq> None"
    unfolding validSolution_iff by (auto simp del: cellOf_simp positions_iff)
  from generateSudoku_parts [OF gen] obtain rnd1 where
    rem: "removeCells rnd1 s 0 ?t = Some (Inr p)"
    by blast
  let ?I = "\<lambda>q (a::nat). grid9 q \<and> agrees q s \<and> (\<forall>y. completion q y \<longrightarrow> y = s)"
  have "\<exists>a. ?I p a \<and> \<not> a < ?t"
  proof (rule removeCells_invariant [OF rem, of ?I])
    show "?I s 0" using gs completion_full [OF gs full] by (simp add: agrees_refl)
  next
    fix q a assume "?I q a" then show "grid9 q" by simp
  next
    fix q a r c x
    assume I: "?I q a" and cnt: "countSolutions (setCell q r c None) = Inr (1, x)"
    let ?q1 = "setCell q r c None"
    from I have g1: "grid9 ?q1" and a1: "agrees ?q1 s" by (simp_all add: agrees_clear)
    from unique_from_count [OF g1 a1 v cnt] have "\<forall>y. completion ?q1 y \<longrightarrow> y = s" by blast
    with g1 a1 show "?I ?q1 (a + 1)" by simp
  qed
  then have "\<forall>y. completion p y \<longrightarrow> y = s" by blast
  moreover have "completion p s"
    using v generateSudoku_facts(3) [OF gen] by (simp add: completion_def)
  ultimately show ?thesis by blast
qed

lemma generateSudoku_solvable:
  assumes gen: "generateSudoku rnd difficulty = Some (Inr (p, s))"
  shows "solveSudoku p = Inr (True, s)"
proof -
  note f = generateSudoku_facts [OF gen]
  from solver_correct(1) [OF f(2) agrees_wellformed [OF f(2,3,1)]]
  show ?thesis
  proof (elim disjE exE conjE)
    fix s' assume "solveSudoku p = Inr (True, s')" "completion p s'"
    with generateSudoku_unique [OF gen, of s'] show ?thesis by simp
  next
    assume "\<forall>x. \<not> completion p x"
    with generateSudoku_unique [OF gen, of s] show ?thesis by simp
  qed
qed

section \<open>Picks that leave a single candidate\<close>

declare forcedRemove.simps [simp del]

lemma forced_unique:
  assumes g: "grid9 q" and v: "validSolution s" and a: "agrees q s"
    and u: "\<And>y. completion q y \<Longrightarrow> y = s"
    and rc: "r < 9" "c < 9" and f: "q ! r ! c = Some w"
    and forced: "list_all (\<lambda>n. n = w \<or> isValid (setCell q r c None) r c n = Inr False) [1..<10]"
  shows "countSolutions (setCell q r c None) = Inr (1, setCell q r c None)"
proof -
  let ?q1 = "setCell q r c None"
  have g1: "grid9 ?q1" using g by simp
  have a1: "agrees ?q1 s" by (rule agrees_clear [OF g a])
  have pos: "(r, c) \<in> positions" using rc by simp
  have e: "cellOf ?q1 (r, c) = None" using g rc by (simp add: nth_setCell9)
  have undo: "setCell ?q1 r c (Some w) = q" using g rc f by (simp add: setCell_same grid9_inRange)
  have c1: "completion ?q1 s" using v a1 by (simp add: completion_def)
  have only: "y = s" if y: "completion ?q1 y" for y
  proof -
    from completion_digit [OF y pos] obtain n where n: "y ! r ! c = Some n" "1 \<le> n" "n \<le> 9"
      by blast
    then have cy: "cellOf y (r, c) = Some n" by simp
    from completion_value_ok [OF y pos e cy] isValid_peer [OF g1 rc, of n]
    have "isValid ?q1 r c n = Inr True" by simp
    moreover from n forced have "n = w \<or> isValid ?q1 r c n = Inr False"
      by (simp add: list_all_iff)
    ultimately have "n = w" by auto
    with y cy completion_place [OF g1 pos e, of w y] have "completion q y"
      unfolding undo by simp
    then show ?thesis by (rule u)
  qed
  with c1 have "{y. completion ?q1 y} = {s}" by blast
  then have "card {y. completion ?q1 y} = 1" by simp
  moreover have "solve 0 ?q1 = Inr (min 2 (0 + card {y. completion ?q1 y}), ?q1)"
    by (rule counter_correct(1) [OF g1 agrees_wellformed [OF g1 a1 v]]) simp
  ultimately show ?thesis by (simp add: countSolutions_def)
qed

lemma forcedRemove_sound:
  assumes "forcedRemove rnd q a t = Some q'" "grid9 q" "validSolution s" "agrees q s"
    "\<And>y. completion q y \<Longrightarrow> y = s"
  shows "removeCells rnd q a t = Some (Inr q')"
  using assms
proof (induction rnd arbitrary: q a rule: induct_list012)
  case 1
  then show ?case
    by (cases "a < t") (simp_all add: forcedRemove.simps removeCells_exit)
next
  case (2 d)
  then show ?case
    by (cases "a < t") (simp_all add: forcedRemove.simps removeCells_exit)
next
  case (3 d1 d2 rnd)
  show ?case
  proof (cases "a < t")
    case False
    with "3.prems"(1) show ?thesis by (simp add: forcedRemove.simps removeCells_exit)
  next
    case lt: True
    let ?r = "d1 mod 9" and ?c = "d2 mod 9"
    have rc: "?r < 9" "?c < 9" by simp_all
    note step = removeCells_step [OF lt, of d1 d2 rnd q]
    show ?thesis
    proof (cases "q ! ?r ! ?c")
      case None
      with lt "3.prems"(1) have "forcedRemove rnd q a t = Some q'"
        by (subst (asm) forcedRemove.simps) (simp add: Let_def)
      from "3.IH"(1) [OF this "3.prems"(2-5)] None step show ?thesis by simp
    next
      case (Some w)
      let ?q1 = "setCell q ?r ?c None"
      from lt Some "3.prems"(1)
      have forced: "list_all (\<lambda>n. n = w \<or> isValid ?q1 ?r ?c n = Inr False) [1..<10]"
        and rest: "forcedRemove rnd ?q1 (a + 1) t = Some q'"
        by (subst (asm) forcedRemove.simps, simp add: Let_def split: if_splits)+
      note cnt = forced_unique [OF "3.prems"(2-4) "3.prems"(5) rc Some forced]
      have u1: "y = s" if "completion ?q1 y" for y
        using unique_from_count [OF _ agrees_clear [OF "3.prems"(2,4)] "3.prems"(3) cnt that]
          "3.prems"(2) by simp
      have "removeCells rnd ?q1 (a + 1) t = Some (Inr q')"
        using "3.IH"(1) [OF rest _ "3.prems"(3) agrees_clear [OF "3.prems"(2,4)] u1] "3.prems"(2)
        by simp
      with step Some cnt show ?thesis by simp
    qed
  qed
qed


section \<open>The example run\<close>

lemma exDraws_split: "exDraws = exSeedDraws @ exPickDraws"
  by (simp add: exDraws_def)

lemma ex_fill:
  "fillDiagonal exDraws (replicate 9 (replicate 9 None)) diagCells = Some (Inr (exSeed, exPickDraws))"
  by code_simp

lemma ex_solve: "solveSudoku exSeed = Inr (True, exSolution)"
  by code_simp

lemma ex_forced: "forcedRemove exPickDraws exSolution 0 35 = Some exPuzzle"
  by code_simp


lemma ex_seedInv: "seedInv exSeed"
  using fillDiagonal_inv [OF ex_fill diagCells_positions seedInv_empty_board] by simp

lemma ex_grid9: "grid9 exSeed" "digits19 exSeed" "consistent exSeed"
  using ex_seedInv by (simp_all add: seedInv_def)

lemma ex_completion: "completion exSeed exSolution"
  using solver_correct(1) [OF ex_grid9] ex_solve by auto

lemma ex_valid: "validSolution exSolution"
  using ex_completion by (simp add: completion_def)

lemma ex_remove: "removeCells exPickDraws exSolution 0 35 = Some (Inr exPuzzle)"
proof (rule forcedRemove_sound [OF ex_forced _ ex_valid agrees_refl])
  from ex_valid show g: "grid9 exSolution" by (simp add: validSolution_def)
  from ex_valid have full: "\<forall>q \<in> positions. cellOf exSolution q \<noteq> None"
    unfolding validSolution_iff by (auto simp del: cellOf_simp positions_iff)
  fix y assume "completion exSolution y"
  with completion_full [OF g full] show "y = exSolution" by simp
qed

lemma ex_generate: "generateSudoku exDraws EASY = Some (Inr (exPuzzle, exSolution))"
  by (simp add: generateSudoku_def ex_fill ex_solve ex_remove)

section \<open>Boards without an empty cell\<close>

lemma full_board_solve:
  assumes "grid9 board" "noEmpty board"
  shows "solveSudoku board = Inr (True, board)" "solve count board = Inr (count + 1, board)"
proof -
  from assms have "\<forall>p \<in> positions. cellOf board p \<noteq> None" by (simp add: noEmpty_iff)
  then have "find (\<lambda>p. cellOf board p = None) cells = None"
    by (simp add: find_None_iff set_cells del: cellOf_simp positions_iff)
  with assms(1) have f: "findEmpty board cells = Inr None" by (simp add: findEmpty_cells)
  from f show "solveSudoku board = Inr (True, board)" by (simp add: solveSudoku.simps)
  from f show "solve count board = Inr (count + 1, board)" by (simp add: solve.simps)
qed

lemma validSolution_noEmpty: "validSolution s \<Longrightarrow> noEmpty s"
proof -
  assume v: "validSolution s"
  then have g: "grid9 s" and "\<forall>p \<in> positions. cellOf s p \<in> Some ` {1..9}"
    unfolding validSolution_iff by simp_all
  then have "\<forall>p \<in> positions. cellOf s p \<noteq> None" by (auto simp del: cellOf_simp positions_iff)
  with g show ?thesis by (simp add: noEmpty_iff)
qed

lemma allOnes_facts: "grid9 allOnes" "noEmpty allOnes" "\<not> validSolution allOnes"
proof -
  show g: "grid9 allOnes" by (simp add: allOnes_def grid9_def)
  show "noEmpty allOnes" by (simp add: allOnes_def noEmpty_def)
  show "\<not> validSolution allOnes"
  proof
    assume "validSolution allOnes"
    then have c: "consistent allOnes" by (simp add: validSolution_iff)
    have p: "(0, 0) \<in> positions" "(0, 1) \<in> positions" "peer (0, 0) (0, 1)" "(0::nat, 0::nat) \<noteq> (0, 1)"
      by (simp_all add: peer_def)
    have "cellOf allOnes (0, 0) = Some 1" "cellOf allOnes (0, 1) = Some 1"
      by (simp_all add: allOnes_def)
    with c p show False unfolding consistent_def by (metis option.distinct(1))
  qed
qed

lemma exStuck_solve: "solveSudoku exStuck = Inr (False, exStuck)"
  by code_simp

lemma exStuck_count: "countSolutions exStuck = Inr (0, exStuck)"
  by code_simp

lemma exPuzzle_wellformed: "grid9 exPuzzle" "digits19 exPuzzle" "noDuplicates exPuzzle"
  using generateSudoku_facts(2) [OF ex_generate]
    agrees_wellformed [OF generateSudoku_facts(2,3,1) [OF ex_generate]]
  by (simp_all add: noDuplicates_consistent)

lemma exSolution_cleared_count:
  "countSolutions (setCell exSolution 0 0 None) = Inr (1, setCell exSolution 0 0 None)"
  by code_simp

lemma allOnes_cleared_count:
  "countSolutions (setCell allOnes 0 0 None) = Inr (2, setCell allOnes 0 0 None)"
  by code_simp

lemma exSolution_first: "grid9 exSolution" "exSolution ! 0 ! 0 \<noteq> None"
  by code_simp+

lemma allOnes_first: "allOnes ! 0 ! 0 \<noteq> None"
  by (simp add: allOnes_def)

section \<open>The claims\<close>

subsection \<open>Constraint checker\<close>

text \<open>
  C4.  On a 9x9 grid, for a row and a column in 0..8, \<open>isValid\<close> returns false when the
  value already appears in the row, in the column or in the 3x3 box whose origin is
  \<open>(row - row mod 3, col - col mod 3)\<close>, and true otherwise.  It never throws there and,
  having no assignment, returns nothing but the boolean: the grid is not changed.
\<close>

theorem isValid_spec:
  assumes "grid9 board" "row < 9" "col < 9"
  shows "isValid board row col v
           = Inr (\<not> (inRow board row v \<or> inCol board col v \<or> inBox board row col v))"
  using assms by (rule isValid_grid9)

theorem isValid_spec_witness:
  "grid9 exPuzzle \<and> (1::nat) < 9 \<and> (0::nat) < 9
   \<and> isValid exPuzzle 1 0 9
       = Inr (\<not> (inRow exPuzzle 1 9 \<or> inCol exPuzzle 0 9 \<or> inBox exPuzzle 1 0 9))"
proof -
  have g: "grid9 exPuzzle" by (rule exPuzzle_wellformed)
  from isValid_spec [OF g, of 1 0 9] g show ?thesis by simp
qed

subsection \<open>Solver\<close>

text \<open>
  C5 (as stated).  The claim lets \<open>solveSudoku\<close> return true exactly when the grid has a
  valid completion, for every 9x9 grid.  On the full board of ones the solver returns true
  and leaves the board as it is, although that board is no solution grid and has no valid
  completion: the solver never checks the cells that are already filled.
\<close>

theorem solveSudoku_unchecked_counterexample:
  "solveSudoku allOnes = Inr (True, allOnes) \<and> \<not> validSolution allOnes
   \<and> Collect (completion allOnes) = {}"
proof -
  have "\<not> completion allOnes s" for s
  proof
    assume c: "completion allOnes s"
    from allOnes_facts(1,2) have "\<forall>p \<in> positions. cellOf allOnes p \<noteq> None"
      by (simp add: noEmpty_iff)
    from completion_full [OF allOnes_facts(1) this c] c allOnes_facts(3)
    show False by (simp add: completion_def)
  qed
  then have "Collect (completion allOnes) = {}" by blast
  with full_board_solve(1) [OF allOnes_facts(1,2)] allOnes_facts(3) show ?thesis by simp
qed

text \<open>
  C5 (amended).  For every 9x9 grid whose filled cells hold digits 1 to 9 without a
  duplicate in any row, column or box: \<open>solveSudoku\<close> returns true exactly when the grid
  has a valid completion; when it returns true the grid has become a valid completion of
  the input, when it returns false the grid is as it was.  Because the candidates 1 to 9
  are tried in ascending order at the first empty cell of the row-major scan, the
  completion it finds is the first one in row-major order.  Solving a solution grid
  returns it unchanged and reports success.
\<close>

theorem solveSudoku_spec:
  assumes "grid9 board" "digits19 board" "noDuplicates board"
  shows "((\<exists>s. solveSudoku board = Inr (True, s) \<and> completion board s
              \<and> (\<forall>t. completion board t \<longrightarrow> precedes s t))
          \<or> (solveSudoku board = Inr (False, board) \<and> \<not> (\<exists>s. completion board s)))
         \<and> (\<forall>r<9. \<forall>c<9. cells ! (9 * r + c) = (r, c))
         \<and> (validSolution board \<longrightarrow> solveSudoku board = Inr (True, board))"
proof -
  from assms(3) have c: "consistent board" by (simp add: noDuplicates_consistent)
  from solver_correct(1) [OF assms(1,2) c]
  have "(\<exists>s. solveSudoku board = Inr (True, s) \<and> completion board s
              \<and> (\<forall>t. completion board t \<longrightarrow> precedes s t))
          \<or> (solveSudoku board = Inr (False, board) \<and> \<not> (\<exists>s. completion board s))"
  proof (elim disjE exE conjE)
    fix s assume s: "solveSudoku board = Inr (True, s)" "completion board s"
    with solver_least(1) [OF assms(1,2) c s(1)] show ?thesis by blast
  next
    assume "solveSudoku board = Inr (False, board)" "\<forall>s. \<not> completion board s"
    then show ?thesis by simp
  qed
  moreover have "validSolution board \<longrightarrow> solveSudoku board = Inr (True, board)"
    using full_board_solve(1) [OF assms(1)] validSolution_noEmpty by blast
  ultimately show ?thesis by (simp add: cells_row_major)
qed

theorem solveSudoku_spec_witness:
  "grid9 exPuzzle \<and> digits19 exPuzzle \<and> noDuplicates exPuzzle
   \<and> solveSudoku exPuzzle = Inr (True, exSolution) \<and> completion exPuzzle exSolution
   \<and> precedes exSolution exSolution"
proof -
  note w = exPuzzle_wellformed
  have s: "solveSudoku exPuzzle = Inr (True, exSolution)"
    by (rule generateSudoku_solvable [OF ex_generate])
  with solveSudoku_spec [OF w]
  have "completion exPuzzle exSolution \<and> precedes exSolution exSolution" by auto
  with w s show ?thesis by simp
qed

text \<open>
  C7.  When \<open>solveSudoku\<close> returns false, the grid is what it was at entry: every cell
  placed in the failed search has been set back to empty.  This holds for every board.
\<close>

theorem solveSudoku_failure_restores:
  "solveSudoku board = Inr (False, board') \<Longrightarrow> board' = board"
  by (rule solveSudoku_restores)

theorem solveSudoku_failure_restores_witness:
  "solveSudoku exStuck = Inr (False, exStuck) \<and> exStuck = exStuck"
  using solveSudoku_failure_restores [OF exStuck_solve] exStuck_solve by simp

text \<open>
  C10.  Neither search looks at cells that are already filled: on every 9x9 grid without
  an empty cell, also one that violates the constraints, \<open>solveSudoku\<close> returns true and
  leaves the grid unchanged, and \<open>countSolutions\<close> returns 1.
\<close>

theorem full_grid_not_validated:
  assumes "grid9 board" "noEmpty board"
  shows "solveSudoku board = Inr (True, board) \<and> countSolutions board = Inr (1, board)"
  using full_board_solve(1) [OF assms] full_board_solve(2) [OF assms, of 0]
  by (simp add: countSolutions_def)

theorem full_grid_not_validated_witness:
  "grid9 allOnes \<and> noEmpty allOnes \<and> \<not> validSolution allOnes
   \<and> solveSudoku allOnes = Inr (True, allOnes) \<and> countSolutions allOnes = Inr (1, allOnes)"
  using full_grid_not_validated [OF allOnes_facts(1,2)] allOnes_facts by simp

subsection \<open>Solution counter\<close>

text \<open>
  C6.  For every 9x9 grid whose filled cells hold digits 1 to 9 without a duplicate in any
  row, column or box, \<open>countSolutions\<close> returns the number of valid completions capped at
  two: 0 when there is none, 1 when there is exactly one (so 1 for a solution grid), and 2
  when there are two or more; the count never goes beyond 2.
\<close>

theorem countSolutions_spec:
  assumes "grid9 board" "digits19 board" "noDuplicates board"
  shows "finite {s. completion board s}
         \<and> countSolutions board = Inr (min 2 (card {s. completion board s}), board)
         \<and> (validSolution board \<longrightarrow> countSolutions board = Inr (1, board))"
proof -
  from assms(3) have "consistent board" by (simp add: noDuplicates_consistent)
  from counter_correct(1) [OF assms(1,2) this, of 0]
  have "countSolutions board = Inr (min 2 (card {s. completion board s}), board)"
    by (simp add: countSolutions_def)
  moreover have "countSolutions board = Inr (1, board)" if "validSolution board"
    using full_board_solve(2) [OF assms(1) validSolution_noEmpty [OF that], of 0]
    by (simp add: countSolutions_def)
  ultimately show ?thesis using finite_completions [of board] by blast
qed

theorem countSolutions_spec_witness:
  "grid9 exPuzzle \<and> digits19 exPuzzle \<and> noDuplicates exPuzzle
   \<and> countSolutions exPuzzle = Inr (1, exPuzzle)"
proof -
  note w = exPuzzle_wellformed
  have "{s. completion exPuzzle s} = {exSolution}"
    using generateSudoku_unique [OF ex_generate] by blast
  with countSolutions_spec [OF w] w show ?thesis by simp
qed

text \<open>
  C8.  \<open>countSolutions\<close> hands the grid back as it received it, whatever the grid and
  whatever the count.  In the removal loop of \<open>generateSudoku\<close> the counter is run on a copy
  of the puzzle with the picked cell cleared; the copy has the contents of that puzzle.  On a
  9x9 puzzle with a filled cell picked, the counter returns a count and leaves the copy as it
  was, and the loop goes on with its own puzzle: with the cell cleared and one more removal
  counted when the count is 1, and with the puzzle as it was before the pick otherwise.  No
  other grid reaches the next pass.
\<close>

theorem countSolutions_frame:
  "(countSolutions board = Inr (n, board') \<longrightarrow> board' = board)
   \<and> deepCopy board = board
   \<and> (grid9 puzzle \<and> attempts < target \<and> puzzle ! (d1 mod 9) ! (d2 mod 9) \<noteq> None \<longrightarrow>
        (\<exists>k. countSolutions (deepCopy (setCell puzzle (d1 mod 9) (d2 mod 9) None))
                = Inr (k, setCell puzzle (d1 mod 9) (d2 mod 9) None)
            \<and> removeCells (d1 # d2 # rnd) puzzle attempts target =
                (if k = 1
                 then removeCells rnd (setCell puzzle (d1 mod 9) (d2 mod 9) None) (attempts + 1) target
                 else removeCells rnd puzzle attempts target)))"
proof (intro conjI impI)
  show "board' = board" if "countSolutions board = Inr (n, board')"
    using solve_restores [of 0 board n board'] that by (simp add: countSolutions_def)
  show "deepCopy board = board" by (simp add: deepCopy_def)
  show "\<exists>k. countSolutions (deepCopy (setCell puzzle (d1 mod 9) (d2 mod 9) None))
                = Inr (k, setCell puzzle (d1 mod 9) (d2 mod 9) None)
            \<and> removeCells (d1 # d2 # rnd) puzzle attempts target =
                (if k = 1
                 then removeCells rnd (setCell puzzle (d1 mod 9) (d2 mod 9) None) (attempts + 1) target
                 else removeCells rnd puzzle attempts target)"
    if "grid9 puzzle \<and> attempts < target \<and> puzzle ! (d1 mod 9) ! (d2 mod 9) \<noteq> None"
    using removeCells_check [of puzzle attempts target d1 d2 rnd] that by blast
qed

theorem countSolutions_frame_witness:
  "countSolutions exStuck = Inr (0, exStuck) \<and> deepCopy exStuck = exStuck
   \<and> grid9 exSolution \<and> exSolution ! (0 mod 9) ! (0 mod 9) \<noteq> None
   \<and> countSolutions (deepCopy (setCell exSolution 0 0 None)) = Inr (1, setCell exSolution 0 0 None)
   \<and> removeCells [0, 0] exSolution 0 1 = Some (Inr (setCell exSolution 0 0 None))
   \<and> grid9 allOnes \<and> allOnes ! (0 mod 9) ! (0 mod 9) \<noteq> None
   \<and> countSolutions (deepCopy (setCell allOnes 0 0 None)) = Inr (2, setCell allOnes 0 0 None)
   \<and> removeCells [0, 0, 0, 0] allOnes 0 1 = removeCells [0, 0] allOnes 0 1"
  using countSolutions_frame [where board = exStuck and n = 0 and board' = exStuck
      and puzzle = exSolution and attempts = 0 and target = 1 and ?d1.0 = 0 and ?d2.0 = 0
      and rnd = "[]"]
    countSolutions_frame [where board = exStuck and n = 0 and board' = exStuck
      and puzzle = allOnes and attempts = 0 and target = 1 and ?d1.0 = 0 and ?d2.0 = 0
      and rnd = "[0, 0]"]
    exStuck_count exSolution_cleared_count allOnes_cleared_count exSolution_first allOnes_first
    allOnes_facts(1) removeCells_exit [of 1 1 "[]" "setCell exSolution 0 0 None"]
  by simp

subsection \<open>Generator\<close>

text \<open>
  C2.  For every pair that \<open>generateSudoku\<close> returns, the solver run on a copy of the puzzle
  returns true and fills it to exactly the returned solution, which is the only valid
  completion of the puzzle.
\<close>

theorem generated_puzzle_solves_to_solution:
  assumes "generateSudoku rnd difficulty = Some (Inr (puzzle, solution))"
  shows "solveSudoku (deepCopy puzzle) = Inr (True, solution)
         \<and> (\<forall>s. completion puzzle s \<longleftrightarrow> s = solution)"
  using generateSudoku_solvable [OF assms] generateSudoku_unique [OF assms] by simp

theorem generated_puzzle_solves_to_solution_witness:
  "generateSudoku exDraws EASY = Some (Inr (exPuzzle, exSolution))
   \<and> solveSudoku (deepCopy exPuzzle) = Inr (True, exSolution)"
  using generated_puzzle_solves_to_solution [OF ex_generate] ex_generate by simp

text \<open>
  C3.  For every pair that \<open>generateSudoku\<close> returns, every non-empty cell of the puzzle
  equals the corresponding cell of the solution; and the removal loop keeps this: started
  on any 9x9 puzzle that agrees with a grid, it ends on a puzzle that agrees with it.
\<close>

theorem generated_puzzle_agrees:
  "(generateSudoku rnd difficulty = Some (Inr (puzzle, solution)) \<longrightarrow>
      (\<forall>r \<in> {0..<9}. \<forall>c \<in> {0..<9}. puzzle ! r ! c \<noteq> None \<longrightarrow> puzzle ! r ! c = solution ! r ! c))
   \<and> (grid9 p \<and> agrees p s \<and> removeCells rnd' p attempts target = Some (Inr p') \<longrightarrow>
        grid9 p' \<and> agrees p' s)"
proof (intro conjI impI)
  assume "generateSudoku rnd difficulty = Some (Inr (puzzle, solution))"
  from generateSudoku_facts(3) [OF this]
  show "\<forall>r \<in> {0..<9}. \<forall>c \<in> {0..<9}. puzzle ! r ! c \<noteq> None \<longrightarrow> puzzle ! r ! c = solution ! r ! c"
    by (simp add: agrees_def)
next
  assume a: "grid9 p \<and> agrees p s \<and> removeCells rnd' p attempts target = Some (Inr p')"
  let ?I = "\<lambda>q (k::nat). grid9 q \<and> agrees q s"
  have "\<exists>k. ?I p' k \<and> \<not> k < target"
  proof (rule removeCells_invariant [of rnd' p attempts target p' ?I])
    from a show "removeCells rnd' p attempts target = Some (Inr p')" by simp
    from a show "?I p attempts" by simp
  next
    fix q k assume "?I q k" then show "grid9 q" by simp
  next
    fix q k r c x assume "?I q k"
    then show "?I (setCell q r c None) (k + 1)" by (simp add: agrees_clear)
  qed
  then show "grid9 p'" "agrees p' s" by auto
qed

theorem generated_puzzle_agrees_witness:
  "generateSudoku exDraws EASY = Some (Inr (exPuzzle, exSolution))
   \<and> grid9 exSolution \<and> agrees exSolution exSolution
   \<and> removeCells exPickDraws exSolution 0 35 = Some (Inr exPuzzle)
   \<and> agrees exPuzzle exSolution
   \<and> exPuzzle ! 1 ! 5 = Some 9 \<and> exSolution ! 1 ! 5 = Some 9"
proof -
  have g: "grid9 exSolution" using ex_valid by (simp add: validSolution_def)
  from generated_puzzle_agrees
         [of exDraws EASY exPuzzle exSolution exSolution exSolution exPickDraws 0 35 exPuzzle]
    ex_generate ex_remove g
  have "agrees exPuzzle exSolution" by (simp add: agrees_refl)
  moreover have "exPuzzle ! 1 ! 5 = Some 9" "exSolution ! 1 ! 5 = Some 9"
    by (simp_all add: exPuzzle_def exSolution_def)
  ultimately show ?thesis using ex_generate ex_remove g by (simp add: agrees_refl)
qed

text \<open>
  C9.  When \<open>generateSudoku\<close> returns, the puzzle has 81 minus the removal count of the
  difficulty filled cells: 46 for Easy, 36 for Medium, 26 for Hard, 21 for Expert.  A pick
  that lands on an empty cell leaves the puzzle and the removal counter as they are.
\<close>

theorem generated_puzzle_filled_count:
  "(generateSudoku rnd difficulty = Some (Inr (puzzle, solution)) \<longrightarrow>
      filledCount puzzle = 81 - cellsToRemove difficulty
      \<and> filledCount puzzle
          = (case difficulty of EASY \<Rightarrow> 46 | MEDIUM \<Rightarrow> 36 | HARD \<Rightarrow> 26 | EXPERT \<Rightarrow> 21))
   \<and> (attempts < target \<and> p ! (d1 mod 9) ! (d2 mod 9) = None \<longrightarrow>
        removeCells (d1 # d2 # rnd') p attempts target = removeCells rnd' p attempts target)"
proof (intro conjI impI)
  assume gen: "generateSudoku rnd difficulty = Some (Inr (puzzle, solution))"
  from generateSudoku_facts(4) [OF gen]
  show c: "filledCount puzzle = 81 - cellsToRemove difficulty" by simp
  then show "filledCount puzzle
          = (case difficulty of EASY \<Rightarrow> 46 | MEDIUM \<Rightarrow> 36 | HARD \<Rightarrow> 26 | EXPERT \<Rightarrow> 21)"
    by (cases difficulty) simp_all
next
  assume "attempts < target \<and> p ! (d1 mod 9) ! (d2 mod 9) = None"
  then show "removeCells (d1 # d2 # rnd') p attempts target = removeCells rnd' p attempts target"
    by (simp add: removeCells_step)
qed

theorem generated_puzzle_filled_count_witness:
  "generateSudoku exDraws EASY = Some (Inr (exPuzzle, exSolution))
   \<and> filledCount exPuzzle = 46
   \<and> (0::nat) < 35 \<and> exPuzzle ! (0 mod 9) ! (0 mod 9) = None
   \<and> removeCells (0 # 0 # []) exPuzzle 0 35 = removeCells [] exPuzzle 0 35"
proof -
  have e: "exPuzzle ! (0 mod 9) ! (0 mod 9) = None" by (simp add: exPuzzle_def)
  from generated_puzzle_filled_count [of exDraws EASY exPuzzle exSolution 0 35 exPuzzle 0 0 "[]"]
    ex_generate e
  show ?thesis by simp
qed

end
